theory Spec2Isabelle
  imports
    Complex_Main
    "HOL-Library.AList"
    "HOL-Library.Char_ord"
    "HOL-Library.List_Lexorder"
    "HOL-Library.Multiset"
    "HOL-Library.Sublist"
begin

section \<open>Values of the program\<close>

text \<open>
  The service of \<^verbatim>\<open>backend/backend_app.py\<close> keeps one global list \<^verbatim>\<open>POSTS\<close> of
  dictionaries and answers four routes. Request bodies are whatever
  \<^verbatim>\<open>request.get_json()\<close> returns, so a body and every field of a post is a JSON value
  as Python holds it: \<^verbatim>\<open>None\<close>, a bool, an unbounded int, a float, a str, a list or a
  dict. A dict is an association list in insertion order; \<^verbatim>\<open>d[k] = v\<close> is
  \<open>AList.update\<close> (the key keeps its place, a new key goes last) and a lookup is
  \<open>map_of\<close>. A parsed JSON object has no key twice (\<open>distinct (map fst d)\<close>).

  A \<open>char\<close> stands for one code point below 256; on these \<^verbatim>\<open>str.lower\<close>,
  \<^verbatim>\<open>str.strip\<close> and the comparison of strings are as defined below. A float is
  a real number here (\<^verbatim>\<open>NaN\<close> and the infinities are left out); no handler computes
  with one.
\<close>

datatype json =
    JNull
  | JBool bool
  | JInt int
  | JFloat real
  | JStr string
  | JList "json list"
  | JObj "(string \<times> json) list"

type_synonym dict = "(string \<times> json) list"

text \<open>The exceptions the handlers can meet; each handler catches them all.\<close>

datatype exn = KeyError | TypeError | AttributeError

text \<open>
  A reply is a status and a JSON body. \<open>ServerError e\<close> is the reply of the
  \<^verbatim>\<open>except Exception as e\<close> branch: status 500 and the body
  \<^verbatim>\<open>{"error": "Interner Serverfehler", "details": str(e)}\<close>, whose text
  \<^verbatim>\<open>str(e)\<close> is the interpreter's and is kept as the exception itself.
\<close>

datatype response = Reply nat json | ServerError exn

fun status :: "response \<Rightarrow> nat" where
  "status (Reply n b) = n"
| "status (ServerError e) = 500"

text \<open>The query string of a GET request: \<^verbatim>\<open>request.args\<close>, a key absent is \<open>None\<close>.\<close>

record args =
  arg_search :: "string option"
  arg_sort :: "string option"
  arg_direction :: "string option"

section \<open>Python primitives\<close>

text \<open>Truth value of a JSON value, as \<^verbatim>\<open>if not x\<close> tests it.\<close>

fun truthy :: "json \<Rightarrow> bool" where
  "truthy JNull = False"
| "truthy (JBool b) = b"
| "truthy (JInt n) = (n \<noteq> 0)"
| "truthy (JFloat r) = (r \<noteq> 0)"
| "truthy (JStr s) = (s \<noteq> [])"
| "truthy (JList xs) = (xs \<noteq> [])"
| "truthy (JObj d) = (d \<noteq> [])"

text \<open>\<^verbatim>\<open>str.lower\<close>: the letters A to Z and the capital letters of Latin-1 (all of
  0xC0 to 0xDE but the multiplication sign 0xD7) move up by 32.\<close>

definition lower_char :: "char \<Rightarrow> char" where
  "lower_char c =
     (let n = of_char c :: nat in
      if (65 \<le> n \<and> n \<le> 90) \<or> (192 \<le> n \<and> n \<le> 222 \<and> n \<noteq> 215)
      then char_of (n + 32) else c)"

definition lower :: "string \<Rightarrow> string" where
  "lower s = map lower_char s"

text \<open>\<^verbatim>\<open>str.strip()\<close> removes the white space of both ends: below 256 that is
  0x09 to 0x0D, 0x1C to 0x20, 0x85 and 0xA0.\<close>

definition is_space :: "char \<Rightarrow> bool" where
  "is_space c =
     (let n = of_char c :: nat in
      (9 \<le> n \<and> n \<le> 13) \<or> (28 \<le> n \<and> n \<le> 32) \<or> n = 133 \<or> n = 160)"

definition strip :: "string \<Rightarrow> string" where
  "strip s = rev (dropWhile is_space (rev (dropWhile is_space s)))"

text \<open>\<^verbatim>\<open>str(n)\<close> of an int, as an f-string prints it.\<close>

fun str_nat :: "nat \<Rightarrow> string" where
  "str_nat n =
     (if n < 10 then [''0123456789'' ! n]
      else str_nat (n div 10) @ [''0123456789'' ! (n mod 10)])"

definition str_int :: "int \<Rightarrow> string" where
  "str_int i = (if i < 0 then CHR ''-'' # str_nat (nat (- i)) else str_nat (nat i))"

text \<open>A loop body that may raise, run over a list: the first exception ends it.\<close>

fun traverse :: "('a \<Rightarrow> exn + 'b) \<Rightarrow> 'a list \<Rightarrow> exn + 'b list" where
  "traverse f [] = Inr []"
| "traverse f (x # xs) =
     (case f x of
        Inl e \<Rightarrow> Inl e
      | Inr y \<Rightarrow> (case traverse f xs of Inl e \<Rightarrow> Inl e | Inr ys \<Rightarrow> Inr (y # ys)))"

text \<open>A list comprehension \<^verbatim>\<open>[x for x in xs if c(x)]\<close> whose condition may raise.\<close>

fun filter_exn :: "('a \<Rightarrow> exn + bool) \<Rightarrow> 'a list \<Rightarrow> exn + 'a list" where
  "filter_exn c [] = Inr []"
| "filter_exn c (x # xs) =
     (case c x of
        Inl e \<Rightarrow> Inl e
      | Inr b \<Rightarrow>
          (case filter_exn c xs of
             Inl e \<Rightarrow> Inl e
           | Inr ys \<Rightarrow> Inr (if b then x # ys else ys)))"

text \<open>
  \<^verbatim>\<open>sorted(xs, key=k, reverse=r)\<close>: the keys are computed first, in order; the sort is
  stable, and with \<^verbatim>\<open>reverse=True\<close> the list is reversed, sorted and reversed again,
  so that equal keys keep their order in both directions.
\<close>

definition py_sorted :: "('a \<Rightarrow> exn + 'k::linorder) \<Rightarrow> bool \<Rightarrow> 'a list \<Rightarrow> exn + 'a list" where
  "py_sorted k r xs =
     (case traverse k xs of
        Inl e \<Rightarrow> Inl e
      | Inr ks \<Rightarrow>
          Inr (map snd
                (if r then rev (sort_key fst (rev (zip ks xs)))
                 else sort_key fst (zip ks xs))))"

text \<open>\<^verbatim>\<open>max(ns, default=d)\<close> over ints.\<close>

definition max_default :: "int list \<Rightarrow> int \<Rightarrow> int" where
  "max_default ns d = (case ns of [] \<Rightarrow> d | n # ms \<Rightarrow> fold max ms n)"

text \<open>\<^verbatim>\<open>k in x\<close> for a str \<open>k\<close>: a key of a dict, an element of a list, a substring of
  a str; any other value is not iterable.\<close>

fun py_in :: "string \<Rightarrow> json \<Rightarrow> exn + bool" where
  "py_in k (JObj d) = Inr (k \<in> set (map fst d))"
| "py_in k (JList xs) = Inr (JStr k \<in> set xs)"
| "py_in k (JStr s) = Inr (sublist k s)"
| "py_in k v = Inl TypeError"

text \<open>\<^verbatim>\<open>x[k] = v\<close> for a str \<open>k\<close>: only a dict takes it.\<close>

fun set_item :: "json \<Rightarrow> string \<Rightarrow> json \<Rightarrow> exn + dict" where
  "set_item (JObj d) k v = Inr (AList.update k v d)"
| "set_item x k v = Inl TypeError"

text \<open>\<^verbatim>\<open>x.items()\<close>: only a dict has it.\<close>

fun items :: "json \<Rightarrow> exn + dict" where
  "items (JObj d) = Inr d"
| "items x = Inl AttributeError"

section \<open>The collection\<close>

definition POSTS :: "dict list" where
  "POSTS =
     [[(''id'', JInt 1), (''title'', JStr ''Hello World''),
       (''content'', JStr ''This is my first post.'')],
      [(''id'', JInt 2), (''title'', JStr ''Flask Tutorial''),
       (''content'', JStr ''Learn Flask with me.'')],
      [(''id'', JInt 3), (''title'', JStr ''Python Tips''),
       (''content'', JStr ''Useful Python tricks.'')]]"

text \<open>
  \<^verbatim>\<open>post["id"]\<close>: a \<^verbatim>\<open>KeyError\<close> when the key is missing. The handlers compare it with an
  int and take the maximum over all posts. Every id of the collection is an int, put
  there by the seed data or by \<open>add_post\<close> (\<open>posts_ok\<close> below, kept by every handler);
  a value of another type under \<^verbatim>\<open>"id"\<close> is outside the model and counted as a
  failure here.
\<close>

definition id_of :: "dict \<Rightarrow> exn + int" where
  "id_of post =
     (case map_of post ''id'' of
        None \<Rightarrow> Inl KeyError
      | Some (JInt n) \<Rightarrow> Inr n
      | Some v \<Rightarrow> Inl TypeError)"

section \<open>sort_posts and search_posts\<close>

text \<open>\<^verbatim>\<open>post.get(f, "").lower()\<close>: only a str has \<^verbatim>\<open>lower\<close>.\<close>

definition get_lower :: "string \<Rightarrow> dict \<Rightarrow> exn + string" where
  "get_lower f post =
     (case map_of post f of
        None \<Rightarrow> Inr (lower [])
      | Some (JStr s) \<Rightarrow> Inr (lower s)
      | Some v \<Rightarrow> Inl AttributeError)"

definition sort_posts :: "dict list \<Rightarrow> string \<Rightarrow> string \<Rightarrow> exn + dict list" where
  "sort_posts posts sort_field direction =
     (if sort_field \<notin> {''title'', ''content''} then Inr posts
      else py_sorted (get_lower sort_field) (direction = ''desc'') posts)"

text \<open>The condition of the comprehension in \<^verbatim>\<open>search_posts\<close>; \<^verbatim>\<open>or\<close> does not
  evaluate its second operand when the first is true.\<close>

definition matches :: "string \<Rightarrow> dict \<Rightarrow> exn + bool" where
  "matches query_lower post =
     (case get_lower ''title'' post of
        Inl e \<Rightarrow> Inl e
      | Inr t \<Rightarrow>
          if sublist query_lower t then Inr True
          else (case get_lower ''content'' post of
                  Inl e \<Rightarrow> Inl e
                | Inr c \<Rightarrow> Inr (sublist query_lower c)))"

definition search_posts :: "dict list \<Rightarrow> string \<Rightarrow> exn + dict list" where
  "search_posts posts query =
     (if query = [] then Inr posts
      else filter_exn (matches (lower query)) posts)"

section \<open>The four handlers\<close>

text \<open>
  Each handler takes the collection and the request and returns the reply and the
  collection afterwards. The \<open>_try\<close> function is the body of the \<^verbatim>\<open>try\<close> block; no
  statement that can raise follows a write to the collection, so the \<^verbatim>\<open>except\<close>
  branch answers with the collection as it was.

  The body of a POST or PUT is the value \<^verbatim>\<open>request.get_json()\<close> returned, \<open>JNull\<close> for
  \<^verbatim>\<open>None\<close>. The path id is the int that the route converter \<^verbatim>\<open><int:post_id>\<close> parsed.
  \<^verbatim>\<open>list_posts\<close> works on \<^verbatim>\<open>POSTS.copy()\<close> and calls nothing that writes to a list or a
  dict, so its copy is the collection itself here.
\<close>

definition bad_direction :: json where
  "bad_direction =
     JObj [(''error'',
            JStr (''Ung'' @ [CHR 0xFC] @ ''ltige Sortierrichtung. Erlaubt: '' @
                  [CHR 0x27] @ ''asc'' @ [CHR 0x27] @ '', '' @
                  [CHR 0x27] @ ''desc'' @ [CHR 0x27]))]"

definition list_posts_try :: "dict list \<Rightarrow> args \<Rightarrow> exn + response" where
  "list_posts_try posts a =
     (let search_query = strip (case arg_search a of None \<Rightarrow> [] | Some s \<Rightarrow> s) in
      case search_posts posts search_query of
        Inl e \<Rightarrow> Inl e
      | Inr result_posts \<Rightarrow>
          (let sort_field = arg_sort a;
               direction = (case arg_direction a of None \<Rightarrow> ''asc'' | Some d \<Rightarrow> d)
           in case sort_field of
                None \<Rightarrow> Inr (Reply 200 (JList (map JObj result_posts)))
              | Some f \<Rightarrow>
                  if f = [] then Inr (Reply 200 (JList (map JObj result_posts)))
                  else if direction \<notin> {''asc'', ''desc''} then Inr (Reply 400 bad_direction)
                  else (case sort_posts result_posts f direction of
                          Inl e \<Rightarrow> Inl e
                        | Inr sorted_posts \<Rightarrow>
                            Inr (Reply 200 (JList (map JObj sorted_posts))))))"

definition list_posts :: "dict list \<Rightarrow> args \<Rightarrow> response \<times> dict list" where
  "list_posts posts a =
     (case list_posts_try posts a of
        Inl e \<Rightarrow> (ServerError e, posts)
      | Inr r \<Rightarrow> (r, posts))"

definition no_data :: json where
  "no_data = JObj [(''error'', JStr ''Keine Daten gesendet'')]"

definition missing_reply :: "string list \<Rightarrow> json" where
  "missing_reply missing_fields =
     JObj [(''error'', JStr ''Fehlende Pflichtfelder''),
           (''missing_fields'', JList (map JStr missing_fields))]"

definition add_post_try :: "dict list \<Rightarrow> json \<Rightarrow> exn + response \<times> dict list" where
  "add_post_try posts new_post =
     (if \<not> truthy new_post then Inr (Reply 400 no_data, posts)
      else
        (case py_in ''title'' new_post of
           Inl e \<Rightarrow> Inl e
         | Inr has_title \<Rightarrow>
             (case py_in ''content'' new_post of
                Inl e \<Rightarrow> Inl e
              | Inr has_content \<Rightarrow>
                  (let missing_fields =
                         (if has_title then [] else [''title'']) @
                         (if has_content then [] else [''content''])
                   in if missing_fields \<noteq> []
                      then Inr (Reply 400 (missing_reply missing_fields), posts)
                      else
                        (case traverse id_of posts of
                           Inl e \<Rightarrow> Inl e
                         | Inr ids \<Rightarrow>
                             (let new_id = max_default ids 0 + 1 in
                              case set_item new_post ''id'' (JInt new_id) of
                                Inl e \<Rightarrow> Inl e
                              | Inr created \<Rightarrow>
                                  Inr (Reply 201 (JObj created), posts @ [created])))))))"

definition add_post :: "dict list \<Rightarrow> json \<Rightarrow> response \<times> dict list" where
  "add_post posts new_post =
     (case add_post_try posts new_post of
        Inl e \<Rightarrow> (ServerError e, posts)
      | Inr r \<Rightarrow> r)"

definition not_found :: "int \<Rightarrow> json" where
  "not_found post_id =
     JObj [(''error'', JStr ''Post nicht gefunden''),
           (''message'', JStr (''Kein Post mit ID '' @ str_int post_id @ '' vorhanden.''))]"

text \<open>The inner loop of \<^verbatim>\<open>update_post\<close>: every item but \<^verbatim>\<open>"id"\<close> is written.\<close>

definition merge :: "dict \<Rightarrow> dict \<Rightarrow> dict" where
  "merge updated_data post =
     fold (\<lambda>(key, v) p. if key \<noteq> ''id'' then AList.update key v p else p) updated_data post"

text \<open>
  The outer loop of \<^verbatim>\<open>update_post\<close>: \<open>None\<close> when it runs to its end, otherwise the
  post as updated and the collection with it in place.
\<close>

fun update_loop :: "dict list \<Rightarrow> int \<Rightarrow> json \<Rightarrow> exn + (dict \<times> dict list) option" where
  "update_loop [] post_id updated_data = Inr None"
| "update_loop (post # rest) post_id updated_data =
     (case id_of post of
        Inl e \<Rightarrow> Inl e
      | Inr n \<Rightarrow>
          if n = post_id then
            (case items updated_data of
               Inl e \<Rightarrow> Inl e
             | Inr kvs \<Rightarrow> Inr (Some (merge kvs post, merge kvs post # rest)))
          else
            (case update_loop rest post_id updated_data of
               Inl e \<Rightarrow> Inl e
             | Inr None \<Rightarrow> Inr None
             | Inr (Some (p, rest')) \<Rightarrow> Inr (Some (p, post # rest'))))"

definition update_post_try :: "dict list \<Rightarrow> int \<Rightarrow> json \<Rightarrow> exn + response \<times> dict list" where
  "update_post_try posts post_id updated_data =
     (if \<not> truthy updated_data then Inr (Reply 400 no_data, posts)
      else
        case update_loop posts post_id updated_data of
          Inl e \<Rightarrow> Inl e
        | Inr (Some (p, posts')) \<Rightarrow> Inr (Reply 200 (JObj p), posts')
        | Inr None \<Rightarrow> Inr (Reply 404 (not_found post_id), posts))"

definition update_post :: "dict list \<Rightarrow> int \<Rightarrow> json \<Rightarrow> response \<times> dict list" where
  "update_post posts post_id updated_data =
     (case update_post_try posts post_id updated_data of
        Inl e \<Rightarrow> (ServerError e, posts)
      | Inr r \<Rightarrow> r)"

definition deleted :: "int \<Rightarrow> json" where
  "deleted post_id =
     JObj [(''message'',
            JStr (''Post with id '' @ str_int post_id @ '' has been deleted successfully.''))]"

text \<open>The loop of \<^verbatim>\<open>delete_post\<close>: \<open>None\<close> when it runs to its end, otherwise the
  collection after \<^verbatim>\<open>POSTS.pop(i)\<close>.\<close>

fun delete_loop :: "dict list \<Rightarrow> int \<Rightarrow> exn + dict list option" where
  "delete_loop [] post_id = Inr None"
| "delete_loop (post # rest) post_id =
     (case id_of post of
        Inl e \<Rightarrow> Inl e
      | Inr n \<Rightarrow>
          if n = post_id then Inr (Some rest)
          else
            (case delete_loop rest post_id of
               Inl e \<Rightarrow> Inl e
             | Inr None \<Rightarrow> Inr None
             | Inr (Some rest') \<Rightarrow> Inr (Some (post # rest'))))"

definition delete_post_try :: "dict list \<Rightarrow> int \<Rightarrow> exn + response \<times> dict list" where
  "delete_post_try posts post_id =
     (case delete_loop posts post_id of
        Inl e \<Rightarrow> Inl e
      | Inr (Some posts') \<Rightarrow> Inr (Reply 200 (deleted post_id), posts')
      | Inr None \<Rightarrow> Inr (Reply 404 (not_found post_id), posts))"

definition delete_post :: "dict list \<Rightarrow> int \<Rightarrow> response \<times> dict list" where
  "delete_post posts post_id =
     (case delete_post_try posts post_id of
        Inl e \<Rightarrow> (ServerError e, posts)
      | Inr r \<Rightarrow> r)"

text \<open>The routes: one request, dispatched by method and path.\<close>

datatype request =
    GET args
  | POST json
  | PUT int json
  | DELETE int

fun handle :: "dict list \<Rightarrow> request \<Rightarrow> response \<times> dict list" where
  "handle posts (GET a) = list_posts posts a"
| "handle posts (POST body) = add_post posts body"
| "handle posts (PUT post_id body) = update_post posts post_id body"
| "handle posts (DELETE post_id) = delete_post posts post_id"

section \<open>The GET handler on a store of objects\<close>

text \<open>
  Whether a request changes the collection depends on which objects the handler writes
  to. For \<^verbatim>\<open>list_posts\<close> the objects are therefore made explicit: a list object holds
  references to dict objects, \<^verbatim>\<open>POSTS\<close> is the list object \<open>POSTS_ref\<close>, and the numbers
  below \<open>next_list\<close> are the list objects that exist. The handler is written once more,
  statement by statement, over this store; \<open>matches\<close>, \<open>get_lower\<close>, \<open>filter_exn\<close> and
  \<open>py_sorted\<close> read the dicts through their references.
\<close>

record heap =
  list_objs :: "nat \<Rightarrow> nat list"
  dict_objs :: "nat \<Rightarrow> dict"
  next_list :: nat

definition POSTS_ref :: nat where
  "POSTS_ref = 0"

text \<open>A new list object: \<^verbatim>\<open>list.copy\<close>, a list comprehension and \<^verbatim>\<open>sorted\<close> each build
  one and leave the lists they read as they are.\<close>

definition new_list :: "heap \<Rightarrow> nat list \<Rightarrow> nat \<times> heap" where
  "new_list h refs =
     (next_list h,
      h\<lparr>list_objs := (list_objs h)(next_list h := refs), next_list := Suc (next_list h)\<rparr>)"

text \<open>\<^verbatim>\<open>POSTS.copy()\<close>: a new list object with the same references.\<close>

definition list_copy :: "heap \<Rightarrow> nat \<Rightarrow> nat \<times> heap" where
  "list_copy h a = new_list h (list_objs h a)"

text \<open>\<^verbatim>\<open>search_posts\<close>: the list it was given for an empty query, otherwise the new list of
  the comprehension.\<close>

definition search_posts_h :: "heap \<Rightarrow> nat \<Rightarrow> string \<Rightarrow> (exn + nat) \<times> heap" where
  "search_posts_h h posts query =
     (if query = [] then (Inr posts, h)
      else
        (case filter_exn (\<lambda>post. matches (lower query) (dict_objs h post)) (list_objs h posts) of
           Inl e \<Rightarrow> (Inl e, h)
         | Inr refs \<Rightarrow> (case new_list h refs of (a, h') \<Rightarrow> (Inr a, h'))))"

text \<open>\<^verbatim>\<open>sort_posts\<close>: the list it was given for an unknown field, otherwise the new list
  that \<^verbatim>\<open>sorted\<close> returns.\<close>

definition sort_posts_h :: "heap \<Rightarrow> nat \<Rightarrow> string \<Rightarrow> string \<Rightarrow> (exn + nat) \<times> heap" where
  "sort_posts_h h posts sort_field direction =
     (if sort_field \<notin> {''title'', ''content''} then (Inr posts, h)
      else
        (case py_sorted (\<lambda>post. get_lower sort_field (dict_objs h post))
                (direction = ''desc'') (list_objs h posts) of
           Inl e \<Rightarrow> (Inl e, h)
         | Inr refs \<Rightarrow> (case new_list h refs of (a, h') \<Rightarrow> (Inr a, h'))))"

text \<open>\<^verbatim>\<open>jsonify\<close> of a list object: the dicts its references point to.\<close>

definition jsonify_list :: "heap \<Rightarrow> nat \<Rightarrow> json" where
  "jsonify_list h a = JList (map (\<lambda>post. JObj (dict_objs h post)) (list_objs h a))"

definition list_posts_h :: "heap \<Rightarrow> args \<Rightarrow> response \<times> heap" where
  "list_posts_h h a =
     (case list_copy h POSTS_ref of
        (copied, h1) \<Rightarrow>
          (let search_query = strip (case arg_search a of None \<Rightarrow> [] | Some s \<Rightarrow> s) in
           case search_posts_h h1 copied search_query of
             (Inl e, h2) \<Rightarrow> (ServerError e, h2)
           | (Inr result_posts, h2) \<Rightarrow>
               (let sort_field = arg_sort a;
                    direction = (case arg_direction a of None \<Rightarrow> ''asc'' | Some d \<Rightarrow> d)
                in case sort_field of
                     None \<Rightarrow> (Reply 200 (jsonify_list h2 result_posts), h2)
                   | Some f \<Rightarrow>
                       if f = [] then (Reply 200 (jsonify_list h2 result_posts), h2)
                       else if direction \<notin> {''asc'', ''desc''} then (Reply 400 bad_direction, h2)
                       else (case sort_posts_h h2 result_posts f direction of
                               (Inl e, h3) \<Rightarrow> (ServerError e, h3)
                             | (Inr sorted_posts, h3) \<Rightarrow>
                                 (Reply 200 (jsonify_list h3 sorted_posts), h3)))))"

section \<open>Vocabulary of the properties\<close>

text \<open>Every post of the collection has an int under \<^verbatim>\<open>"id"\<close>.\<close>

definition posts_ok :: "dict list \<Rightarrow> bool" where
  "posts_ok posts = (\<forall>p \<in> set posts. case id_of p of Inr n \<Rightarrow> True | Inl e \<Rightarrow> False)"

text \<open>The ids of the collection, in order.\<close>

definition int_ids :: "dict list \<Rightarrow> int list" where
  "int_ids posts = concat (map (\<lambda>p. case id_of p of Inr n \<Rightarrow> [n] | Inl e \<Rightarrow> []) posts)"

text \<open>The collections the service can hold: the seed data and what the handlers make of it.\<close>

inductive reachable :: "dict list \<Rightarrow> bool" where
  init: "reachable POSTS"
| step: "reachable posts \<Longrightarrow> reachable (snd (handle posts r))"

text \<open>Every title and every content that is present is a str, as the data model has it.
  \<open>add_post\<close> and \<open>update_post\<close> do not check it.\<close>

definition texts_ok :: "dict list \<Rightarrow> bool" where
  "texts_ok posts =
     (\<forall>post \<in> set posts. \<forall>f \<in> {''title'', ''content''}.
        case map_of post f of None \<Rightarrow> True | Some (JStr s) \<Rightarrow> True | Some v \<Rightarrow> False)"

text \<open>The text of a field, a missing field being the empty string.\<close>

definition text_of :: "string \<Rightarrow> dict \<Rightarrow> string" where
  "text_of f post = (case map_of post f of Some (JStr s) \<Rightarrow> s | _ \<Rightarrow> [])"

text \<open>The search filter in the words of the specification: the query, case-insensitively,
  is a substring of the title or of the content.\<close>

definition spec_hit :: "string \<Rightarrow> dict \<Rightarrow> bool" where
  "spec_hit q post \<longleftrightarrow>
     sublist (lower q) (lower (text_of ''title'' post)) \<or>
     sublist (lower q) (lower (text_of ''content'' post))"

text \<open>An empty query keeps every post.\<close>

definition spec_search :: "string \<Rightarrow> dict list \<Rightarrow> dict list" where
  "spec_search q posts = (if q = [] then posts else filter (spec_hit q) posts)"

text \<open>The sort in the words of the specification: only for the fields title and content,
  by the lowercased text, ascending, or descending for \<^verbatim>\<open>desc\<close>; posts with equal keys
  stay in the order of the collection in both directions.\<close>

definition spec_sort :: "string \<Rightarrow> string \<Rightarrow> dict list \<Rightarrow> dict list" where
  "spec_sort f dir posts =
     (if f = ''title'' \<or> f = ''content'' then
        (if dir = ''desc'' then rev (sort_key (\<lambda>p. lower (text_of f p)) (rev posts))
         else sort_key (\<lambda>p. lower (text_of f p)) posts)
      else posts)"

text \<open>Filter first, then sort.\<close>

definition spec_list :: "dict list \<Rightarrow> args \<Rightarrow> dict list" where
  "spec_list posts a =
     (let filtered = spec_search (strip (case arg_search a of None \<Rightarrow> [] | Some s \<Rightarrow> s)) posts
      in case arg_sort a of
           None \<Rightarrow> filtered
         | Some f \<Rightarrow> spec_sort f (case arg_direction a of None \<Rightarrow> ''asc'' | Some d \<Rightarrow> d) filtered)"

text \<open>A field of the JSON object a reply carries.\<close>

fun body_field :: "response \<Rightarrow> string \<Rightarrow> json option" where
  "body_field (Reply n (JObj d)) k = map_of d k"
| "body_field r k = None"

text \<open>The dicts a list object refers to, and the collection: those of \<^verbatim>\<open>POSTS\<close>.\<close>

definition view :: "heap \<Rightarrow> nat \<Rightarrow> dict list" where
  "view h a = map (dict_objs h) (list_objs h a)"

definition collection :: "heap \<Rightarrow> dict list" where
  "collection h = view h POSTS_ref"

text \<open>The store after keeps every list object that existed, every dict, and no number is
  given up.\<close>

definition keeps :: "heap \<Rightarrow> heap \<Rightarrow> bool" where
  "keeps h h' \<longleftrightarrow>
     (\<forall>a < next_list h. list_objs h' a = list_objs h a) \<and>
     dict_objs h' = dict_objs h \<and> next_list h \<le> next_list h'"

text \<open>The store at the start: \<^verbatim>\<open>POSTS\<close> with its three dicts.\<close>

definition seed_heap :: heap where
  "seed_heap =
     \<lparr>list_objs = (\<lambda>a. if a = POSTS_ref then [0, 1, 2] else []),
      dict_objs = (\<lambda>r. if r < 3 then POSTS ! r else []),
      next_list = 1\<rparr>"

section \<open>Lemmas\<close>

lemma posts_ok_Nil [simp]: "posts_ok []"
  by (simp add: posts_ok_def)

lemma posts_ok_Cons:
  "posts_ok (p # ps) \<longleftrightarrow> (\<exists>n. id_of p = Inr n) \<and> posts_ok ps"
  by (auto simp: posts_ok_def split: sum.splits)

lemma posts_ok_append:
  "posts_ok (ps @ qs) \<longleftrightarrow> posts_ok ps \<and> posts_ok qs"
  by (auto simp: posts_ok_def)

lemma int_ids_Nil [simp]: "int_ids [] = []"
  by (simp add: int_ids_def)

lemma int_ids_Cons_ok: "id_of p = Inr n \<Longrightarrow> int_ids (p # ps) = n # int_ids ps"
  by (simp add: int_ids_def)

lemma int_ids_append: "int_ids (ps @ qs) = int_ids ps @ int_ids qs"
  by (simp add: int_ids_def)

lemma traverse_id_of: "posts_ok posts \<Longrightarrow> traverse id_of posts = Inr (int_ids posts)"
  by (induction posts) (auto simp: posts_ok_Cons int_ids_Cons_ok)

lemma int_ids_empty_iff: "posts_ok posts \<Longrightarrow> int_ids posts = [] \<longleftrightarrow> posts = []"
  by (cases posts) (auto simp: posts_ok_Cons int_ids_Cons_ok)

lemma max_default_Max: "max_default ns d = (if ns = [] then d else Max (set ns))"
proof (cases ns)
  case Nil
  then show ?thesis by (simp add: max_default_def)
next
  case (Cons n ms)
  then show ?thesis using Max.set_eq_fold [of n ms] by (simp add: max_default_def)
qed

lemma id_of_update_id: "id_of (AList.update ''id'' (JInt n) d) = Inr n"
  by (simp add: id_of_def update_conv')

lemma add_post_ok:
  assumes "posts_ok posts" "d \<noteq> []" "''title'' \<in> fst ` set d" "''content'' \<in> fst ` set d"
  shows "add_post posts (JObj d) =
           (Reply 201 (JObj (AList.update ''id'' (JInt (max_default (int_ids posts) 0 + 1)) d)),
            posts @ [AList.update ''id'' (JInt (max_default (int_ids posts) 0 + 1)) d])"
  using assms by (simp add: add_post_def add_post_try_def traverse_id_of Let_def)

lemma merge_Nil [simp]: "merge [] p = p"
  by (simp add: merge_def)

lemma merge_Cons:
  "merge ((k, v) # kvs) p = merge kvs (if k \<noteq> ''id'' then AList.update k v p else p)"
  by (simp add: merge_def)

lemma merge_keeps_id: "map_of (merge kvs p) ''id'' = map_of p ''id''"
  by (induction kvs arbitrary: p) (auto simp: merge_Cons update_conv')

lemma id_of_merge: "id_of (merge kvs p) = id_of p"
  by (simp add: id_of_def merge_keeps_id)

lemma merge_lookup:
  "distinct (map fst kvs) \<Longrightarrow>
   map_of (merge kvs p) k =
     (if k = ''id'' then map_of p k
      else case map_of kvs k of Some v \<Rightarrow> Some v | None \<Rightarrow> map_of p k)"
proof (induction kvs arbitrary: p)
  case Nil
  then show ?case by simp
next
  case (Cons kv kvs)
  obtain k' v' where kv: "kv = (k', v')" by (cases kv)
  from Cons.prems kv have d: "distinct (map fst kvs)" and fresh: "k' \<notin> fst ` set kvs"
    by auto
  from fresh have none: "map_of kvs k' = None"
    by (simp add: map_of_eq_None_iff)
  show ?case
    using Cons.IH [OF d] none
    by (auto simp: kv merge_Cons update_conv' split: option.splits)
qed

lemma split_first_id:
  "posts_ok posts \<Longrightarrow> pid \<in> set (int_ids posts) \<Longrightarrow>
   \<exists>pre p suf. posts = pre @ p # suf \<and> id_of p = Inr pid \<and>
     (\<forall>q \<in> set pre. id_of q \<noteq> Inr pid)"
proof (induction posts)
  case Nil
  then show ?case by simp
next
  case (Cons a posts)
  from Cons.prems(1) obtain n where n: "id_of a = Inr n" and ok: "posts_ok posts"
    by (auto simp: posts_ok_Cons)
  show ?case
  proof (cases "n = pid")
    case True
    with n have "a # posts = [] @ a # posts \<and> id_of a = Inr pid \<and>
      (\<forall>q \<in> set []. id_of q \<noteq> Inr pid)" by simp
    then show ?thesis by blast
  next
    case False
    with Cons.prems(2) n have "pid \<in> set (int_ids posts)"
      by (simp add: int_ids_Cons_ok)
    from Cons.IH [OF ok this] obtain pre p suf where
      "posts = pre @ p # suf" "id_of p = Inr pid" "\<forall>q \<in> set pre. id_of q \<noteq> Inr pid"
      by blast
    with n False have "a # posts = (a # pre) @ p # suf \<and> id_of p = Inr pid \<and>
      (\<forall>q \<in> set (a # pre). id_of q \<noteq> Inr pid)" by simp
    then show ?thesis by blast
  qed
qed

lemma update_loop_found:
  "posts_ok pre \<Longrightarrow> \<forall>q \<in> set pre. id_of q \<noteq> Inr pid \<Longrightarrow> id_of p = Inr pid \<Longrightarrow>
   update_loop (pre @ p # suf) pid (JObj d) =
     Inr (Some (merge d p, pre @ merge d p # suf))"
  by (induction pre) (auto simp: posts_ok_Cons)

lemma update_loop_absent:
  "posts_ok posts \<Longrightarrow> pid \<notin> set (int_ids posts) \<Longrightarrow> update_loop posts pid body = Inr None"
  by (induction posts) (auto simp: posts_ok_Cons int_ids_Cons_ok)

lemma update_loop_ids:
  "update_loop posts pid body = Inr (Some (p, posts')) \<Longrightarrow> map id_of posts' = map id_of posts"
  by (induction posts arbitrary: p posts')
     (auto simp: id_of_merge split: sum.splits if_splits option.splits)

lemma delete_loop_found:
  "posts_ok pre \<Longrightarrow> \<forall>q \<in> set pre. id_of q \<noteq> Inr pid \<Longrightarrow> id_of p = Inr pid \<Longrightarrow>
   delete_loop (pre @ p # suf) pid = Inr (Some (pre @ suf))"
  by (induction pre) (auto simp: posts_ok_Cons)

lemma delete_loop_absent:
  "posts_ok posts \<Longrightarrow> pid \<notin> set (int_ids posts) \<Longrightarrow> delete_loop posts pid = Inr None"
  by (induction posts) (auto simp: posts_ok_Cons int_ids_Cons_ok)

lemma delete_loop_removes:
  "delete_loop posts pid = Inr (Some posts') \<Longrightarrow>
   \<exists>pre p suf. posts = pre @ p # suf \<and> posts' = pre @ suf"
proof (induction posts arbitrary: posts')
  case Nil
  then show ?case by simp
next
  case (Cons a posts)
  from Cons.prems obtain n where n: "id_of a = Inr n"
    by (auto split: sum.splits)
  show ?case
  proof (cases "n = pid")
    case True
    with Cons.prems n have "posts' = posts" by simp
    then have "a # posts = [] @ a # posts \<and> posts' = [] @ posts" by simp
    then show ?thesis by blast
  next
    case False
    with Cons.prems n obtain rest where r: "delete_loop posts pid = Inr (Some rest)"
      and p': "posts' = a # rest"
      by (auto split: sum.splits option.splits)
    from Cons.IH [OF r] obtain pre p suf where "posts = pre @ p # suf" "rest = pre @ suf"
      by blast
    with p' have "a # posts = (a # pre) @ p # suf \<and> posts' = (a # pre) @ suf" by simp
    then show ?thesis by blast
  qed
qed

lemma lower_Nil [simp]: "lower [] = []"
  by (simp add: lower_def)

lemma get_lower_ok:
  "texts_ok posts \<Longrightarrow> p \<in> set posts \<Longrightarrow> f = ''title'' \<or> f = ''content'' \<Longrightarrow>
   get_lower f p = Inr (lower (text_of f p))"
proof -
  assume "texts_ok posts" "p \<in> set posts" "f = ''title'' \<or> f = ''content''"
  then have c: "case map_of p f of None \<Rightarrow> True | Some (JStr s) \<Rightarrow> True | Some v \<Rightarrow> False"
    by (auto simp: texts_ok_def)
  show ?thesis
  proof (cases "map_of p f")
    case None
    then show ?thesis by (simp add: get_lower_def text_of_def)
  next
    case (Some v)
    with c show ?thesis by (cases v) (simp_all add: get_lower_def text_of_def)
  qed
qed

lemma filter_exn_ok:
  "\<forall>x \<in> set xs. c x = Inr (P x) \<Longrightarrow> filter_exn c xs = Inr (filter P xs)"
  by (induction xs) auto

lemma traverse_ok:
  "\<forall>x \<in> set xs. f x = Inr (g x) \<Longrightarrow> traverse f xs = Inr (map g xs)"
  by (induction xs) auto

lemma matches_ok:
  "texts_ok posts \<Longrightarrow> p \<in> set posts \<Longrightarrow> matches (lower q) p = Inr (spec_hit q p)"
  by (simp add: matches_def spec_hit_def get_lower_ok)

lemma search_posts_ok:
  "texts_ok posts \<Longrightarrow> search_posts posts q = Inr (spec_search q posts)"
  by (simp add: search_posts_def spec_search_def filter_exn_ok matches_ok)

lemma texts_ok_search: "texts_ok posts \<Longrightarrow> texts_ok (spec_search q posts)"
  by (simp add: texts_ok_def spec_search_def)

lemma insort_key_pair:
  "insort_key fst (g x, x) (map (\<lambda>y. (g y, y)) xs) = map (\<lambda>y. (g y, y)) (insort_key g x xs)"
  by (induction xs) auto

lemma sort_key_pair:
  "sort_key fst (map (\<lambda>y. (g y, y)) xs) = map (\<lambda>y. (g y, y)) (sort_key g xs)"
  by (induction xs) (simp_all add: insort_key_pair)

lemma zip_keys: "zip (map g xs) xs = map (\<lambda>y. (g y, y)) xs"
  by (induction xs) auto

lemma py_sorted_ok:
  assumes "\<forall>x \<in> set xs. k x = Inr (g x)"
  shows "py_sorted k r xs = Inr (if r then rev (sort_key g (rev xs)) else sort_key g xs)"
proof -
  have t: "traverse k xs = Inr (map g xs)"
    using assms by (rule traverse_ok)
  have asc: "map snd (sort_key fst (zip (map g xs) xs)) = sort_key g xs"
    by (simp add: zip_keys sort_key_pair comp_def)
  have "rev (zip (map g xs) xs) = map (\<lambda>y. (g y, y)) (rev xs)"
    by (simp add: zip_keys rev_map)
  then have "sort_key fst (rev (zip (map g xs) xs)) = map (\<lambda>y. (g y, y)) (sort_key g (rev xs))"
    by (simp only: sort_key_pair)
  then have desc: "map snd (rev (sort_key fst (rev (zip (map g xs) xs)))) = rev (sort_key g (rev xs))"
    by (simp add: rev_map comp_def)
  show ?thesis
    using asc desc by (simp add: py_sorted_def t)
qed

lemma sort_posts_ok:
  "texts_ok posts \<Longrightarrow> sort_posts posts f dir = Inr (spec_sort f dir posts)"
  by (auto simp: sort_posts_def spec_sort_def py_sorted_ok get_lower_ok)

lemma list_posts_ok:
  assumes "texts_ok posts"
    and "arg_sort a = None \<or> arg_sort a = Some [] \<or>
         arg_direction a \<in> {None, Some ''asc'', Some ''desc''}"
  shows "list_posts posts a = (Reply 200 (JList (map JObj (spec_list posts a))), posts)"
  using assms
  by (auto simp: list_posts_def list_posts_try_def spec_list_def Let_def search_posts_ok
      sort_posts_ok texts_ok_search spec_sort_def split: option.splits)

lemma strip_blank: "(\<forall>c \<in> set q. is_space c) \<Longrightarrow> strip q = []"
proof -
  assume "\<forall>c \<in> set q. is_space c"
  then have "dropWhile is_space q = []" by (induction q) simp_all
  then show ?thesis by (simp only: strip_def rev.simps dropWhile.simps)
qed

lemma strip_idem: "strip (strip q) = strip q"
proof -
  define A where "A = dropWhile is_space q"
  define B where "B = dropWhile is_space (rev A)"
  have s: "strip q = rev B" by (simp add: strip_def A_def B_def)
  show ?thesis
  proof (cases "B = []")
    case True
    with s have e: "strip q = []" by simp
    have "strip [] = []" by (simp add: strip_def)
    with e show ?thesis by simp
  next
    case False
    then have hB: "\<not> is_space (hd B)"
      unfolding B_def by (rule hd_dropWhile)
    have "rev A = takeWhile is_space (rev A) @ B"
      by (simp add: B_def)
    then have "A = rev B @ rev (takeWhile is_space (rev A))"
      by (metis rev_append rev_rev_ident)
    with False have hd_eq: "hd A = hd (rev B)" and "A \<noteq> []"
      by (metis hd_append2 rev_is_Nil_conv, metis Nil_is_append_conv rev_is_Nil_conv)
    then have "\<not> is_space (hd A)"
      unfolding A_def by (metis hd_dropWhile)
    with hd_eq have "dropWhile is_space (rev B) = rev B"
      by (simp add: dropWhile_eq_self_iff)
    moreover from hB have "dropWhile is_space B = B"
      by (simp add: dropWhile_eq_self_iff)
    ultimately have "strip (rev B) = rev B"
      by (simp add: strip_def)
    with s show ?thesis by simp
  qed
qed

lemma list_posts_strip:
  "list_posts posts (a\<lparr>arg_search := Some q\<rparr>) = list_posts posts (a\<lparr>arg_search := Some (strip q)\<rparr>)"
  by (simp add: list_posts_def list_posts_try_def strip_idem Let_def split: sum.splits)

lemma list_posts_blank:
  "\<forall>c \<in> set q. is_space c \<Longrightarrow>
   list_posts posts \<lparr>arg_search = Some q, arg_sort = None, arg_direction = d\<rparr> =
     (Reply 200 (JList (map JObj posts)), posts)"
  by (simp add: list_posts_def list_posts_try_def strip_blank search_posts_def Let_def split: sum.splits)

lemma list_posts_frame: "snd (list_posts posts a) = posts"
  by (simp add: list_posts_def split: sum.splits)

lemma list_posts_status:
  assumes "texts_ok posts"
  shows "status (fst (list_posts posts a)) =
          (if (\<exists>f. arg_sort a = Some f \<and> f \<noteq> []) \<and>
              arg_direction a \<notin> {None, Some ''asc'', Some ''desc''}
           then 400 else 200)"
  using assms
  by (auto simp: list_posts_def list_posts_try_def Let_def search_posts_ok
      sort_posts_ok texts_ok_search split: option.splits)

lemma list_posts_default_direction:
  "arg_direction a = None \<Longrightarrow> list_posts posts a = list_posts posts (a\<lparr>arg_direction := Some ''asc''\<rparr>)"
  by (simp add: list_posts_def list_posts_try_def Let_def split: sum.splits)

lemma list_posts_400_only:
  "status (fst (list_posts posts a)) = 400 \<Longrightarrow>
   (\<exists>f. arg_sort a = Some f \<and> f \<noteq> []) \<and> arg_direction a \<notin> {None, Some ''asc'', Some ''desc''}"
  by (auto simp: list_posts_def list_posts_try_def Let_def split: option.splits sum.splits if_splits)

lemma same_ids:
  assumes "map id_of ps = map id_of qs"
  shows "int_ids ps = int_ids qs" and "posts_ok ps \<longleftrightarrow> posts_ok qs"
proof -
  have "int_ids ps = concat (map (\<lambda>r. case r of Inr n \<Rightarrow> [n] | Inl e \<Rightarrow> []) (map id_of ps))"
    by (simp add: int_ids_def comp_def)
  also have "\<dots> = int_ids qs"
    by (simp add: assms int_ids_def comp_def)
  finally show "int_ids ps = int_ids qs" .
  have "posts_ok ps \<longleftrightarrow> (\<forall>r \<in> set (map id_of ps). case r of Inr n \<Rightarrow> True | Inl e \<Rightarrow> False)"
    by (simp add: posts_ok_def)
  also have "\<dots> \<longleftrightarrow> posts_ok qs"
    by (simp add: assms posts_ok_def)
  finally show "posts_ok ps \<longleftrightarrow> posts_ok qs" .
qed

lemma new_id_fresh: "max_default ns 0 + 1 \<notin> set ns"
proof (cases "ns = []")
  case True
  then show ?thesis by simp
next
  case False
  have "\<forall>n \<in> set ns. n \<le> Max (set ns)" by simp
  then have "Max (set ns) + 1 \<notin> set ns" by fastforce
  with False show ?thesis by (simp add: max_default_Max)
qed

lemma add_post_state:
  assumes "posts_ok posts"
  shows "snd (add_post posts body) = posts \<or>
         (\<exists>d. snd (add_post posts body) =
                posts @ [AList.update ''id'' (JInt (max_default (int_ids posts) 0 + 1)) d])"
  using assms
  by (cases body)
     (auto simp: add_post_def add_post_try_def traverse_id_of Let_def split: sum.splits)

lemma add_post_invariant:
  assumes "posts_ok posts" "distinct (int_ids posts)"
  shows "posts_ok (snd (add_post posts body)) \<and> distinct (int_ids (snd (add_post posts body)))"
proof -
  let ?n = "max_default (int_ids posts) 0 + 1"
  from add_post_state [OF assms(1), of body] show ?thesis
  proof
    assume "snd (add_post posts body) = posts"
    with assms show ?thesis by simp
  next
    assume "\<exists>d. snd (add_post posts body) = posts @ [AList.update ''id'' (JInt ?n) d]"
    then obtain d where s: "snd (add_post posts body) = posts @ [AList.update ''id'' (JInt ?n) d]"
      by blast
    have i: "int_ids [AList.update ''id'' (JInt ?n) d] = [?n]"
      by (simp add: int_ids_def id_of_update_id)
    have o: "posts_ok [AList.update ''id'' (JInt ?n) d]"
      by (simp add: posts_ok_def id_of_update_id)
    show ?thesis
      using assms new_id_fresh [of "int_ids posts"] i o
      by (simp add: s posts_ok_append int_ids_append)
  qed
qed

lemma update_post_state:
  "snd (update_post posts pid body) = posts \<or>
   map id_of (snd (update_post posts pid body)) = map id_of posts"
  by (auto simp: update_post_def update_post_try_def update_loop_ids
      split: sum.splits option.splits)

lemma update_post_invariant:
  assumes "posts_ok posts" "distinct (int_ids posts)"
  shows "posts_ok (snd (update_post posts pid body)) \<and>
         distinct (int_ids (snd (update_post posts pid body)))"
  using update_post_state [of posts pid body] assms same_ids
  by metis

lemma delete_post_state:
  "snd (delete_post posts pid) = posts \<or>
   (\<exists>pre p suf. posts = pre @ p # suf \<and> snd (delete_post posts pid) = pre @ suf)"
  by (auto simp: delete_post_def delete_post_try_def
      split: sum.splits option.splits dest: delete_loop_removes)

lemma delete_post_invariant:
  assumes "posts_ok posts" "distinct (int_ids posts)"
  shows "posts_ok (snd (delete_post posts pid)) \<and>
         distinct (int_ids (snd (delete_post posts pid)))"
proof -
  from delete_post_state [of posts pid] show ?thesis
  proof
    assume "snd (delete_post posts pid) = posts"
    with assms show ?thesis by simp
  next
    assume "\<exists>pre p suf. posts = pre @ p # suf \<and> snd (delete_post posts pid) = pre @ suf"
    then obtain pre p suf where p: "posts = pre @ p # suf"
      and s: "snd (delete_post posts pid) = pre @ suf" by blast
    have "int_ids posts = int_ids pre @ int_ids [p] @ int_ids suf"
      by (simp add: p int_ids_def)
    with assms(2) have "distinct (int_ids pre @ int_ids suf)" by auto
    moreover from assms(1) have "posts_ok (pre @ suf)"
      by (simp add: p posts_ok_append posts_ok_Cons)
    ultimately show ?thesis by (simp add: s int_ids_append)
  qed
qed

lemma handle_invariant:
  assumes "posts_ok posts" "distinct (int_ids posts)"
  shows "posts_ok (snd (handle posts r)) \<and> distinct (int_ids (snd (handle posts r)))"
  using assms
  by (cases r)
     (simp_all add: list_posts_frame add_post_invariant update_post_invariant
        delete_post_invariant)

lemma POSTS_invariant: "posts_ok POSTS \<and> distinct (int_ids POSTS)"
  by (simp add: posts_ok_def int_ids_def POSTS_def id_of_def)

lemma reachable_invariant: "reachable posts \<Longrightarrow> posts_ok posts \<and> distinct (int_ids posts)"
  by (induction rule: reachable.induct) (simp_all add: POSTS_invariant handle_invariant)

text \<open>Once a post is deleted, the same DELETE again finds nothing, the ids being unique.\<close>

lemma delete_again_is_404:
  assumes "posts_ok posts" and "distinct (int_ids posts)" and "pid \<in> set (int_ids posts)"
  shows "status (fst (delete_post posts pid)) = 200 \<and>
         delete_post (snd (delete_post posts pid)) pid =
           (Reply 404 (not_found pid), snd (delete_post posts pid))"
proof -
  from split_first_id [OF assms(1) assms(3)] obtain pre p suf where
    s: "posts = pre @ p # suf" and i: "id_of p = Inr pid"
    and f: "\<forall>q \<in> set pre. id_of q \<noteq> Inr pid"
    by blast
  from assms(1) s have ok: "posts_ok pre" and ok': "posts_ok (pre @ suf)"
    by (simp_all add: posts_ok_append posts_ok_Cons)
  have l: "delete_loop posts pid = Inr (Some (pre @ suf))"
    unfolding s using ok f i by (rule delete_loop_found)
  have r: "delete_post posts pid = (Reply 200 (deleted pid), pre @ suf)"
    by (simp add: delete_post_def delete_post_try_def l)
  have "int_ids posts = int_ids pre @ pid # int_ids suf"
    by (simp add: s int_ids_append int_ids_Cons_ok [OF i])
  with assms(2) have "pid \<notin> set (int_ids (pre @ suf))"
    by (auto simp: int_ids_append)
  with ok' have "delete_loop (pre @ suf) pid = Inr None"
    by (rule delete_loop_absent)
  then have "delete_post (pre @ suf) pid = (Reply 404 (not_found pid), pre @ suf)"
    by (simp add: delete_post_def delete_post_try_def)
  then show ?thesis
    by (simp add: r)
qed

text \<open>What \<open>spec_sort\<close> returns: a permutation, in ascending or descending order of the
  key, in which posts of equal key keep the order they had.\<close>

lemma spec_sort_perm: "mset (spec_sort f dir posts) = mset posts"
  by (simp add: spec_sort_def)

lemma spec_sort_ascending:
  "f = ''title'' \<or> f = ''content'' \<Longrightarrow> dir \<noteq> ''desc'' \<Longrightarrow>
   sorted (map (\<lambda>p. lower (text_of f p)) (spec_sort f dir posts))"
  by (auto simp: spec_sort_def)

lemma spec_sort_descending:
  "f = ''title'' \<or> f = ''content'' \<Longrightarrow>
   sorted (rev (map (\<lambda>p. lower (text_of f p)) (spec_sort f ''desc'' posts)))"
  by (auto simp: spec_sort_def rev_map)

lemma spec_sort_stable:
  "filter (\<lambda>p. lower (text_of f p) = k) (spec_sort f dir posts) =
   filter (\<lambda>p. lower (text_of f p) = k) posts"
  by (simp add: spec_sort_def sort_key_stable rev_filter [symmetric])

text \<open>What \<open>strip\<close> does to a query: white space around a core that neither starts nor
  ends with white space is removed, and every query is of that form.\<close>

lemma dropWhile_all: "\<forall>c \<in> set l. P c \<Longrightarrow> dropWhile P (l @ xs) = dropWhile P xs"
  by (induction l) simp_all

lemma dropWhile_hd: "xs \<noteq> [] \<Longrightarrow> \<not> P (hd xs) \<Longrightarrow> dropWhile P xs = xs"
  by (cases xs) simp_all

lemma strip_surrounded:
  assumes "\<forall>c \<in> set l. is_space c" and "\<forall>c \<in> set r. is_space c"
    and "core = [] \<or> (\<not> is_space (hd core) \<and> \<not> is_space (last core))"
  shows "strip (l @ core @ r) = core"
proof (cases "core = []")
  case True
  from assms(1,2) have "\<forall>c \<in> set (l @ r). is_space c" by auto
  then have "strip (l @ r) = []" by (rule strip_blank)
  with True show ?thesis by simp
next
  case False
  with assms(3) have h: "\<not> is_space (hd core)" and t: "\<not> is_space (last core)"
    by simp_all
  from False h have "dropWhile is_space (core @ r) = core @ r"
    by (simp add: dropWhile_hd)
  with assms(1) have a: "dropWhile is_space (l @ core @ r) = core @ r"
    by (simp add: dropWhile_all)
  from assms(2) have "\<forall>c \<in> set (rev r). is_space c" by simp
  then have "dropWhile is_space (rev r @ rev core) = dropWhile is_space (rev core)"
    by (rule dropWhile_all)
  moreover from False t have "dropWhile is_space (rev core) = rev core"
    by (simp add: dropWhile_hd hd_rev)
  ultimately have "dropWhile is_space (rev (core @ r)) = rev core" by simp
  then show ?thesis by (simp only: strip_def a rev_rev_ident)
qed

lemma strip_split:
  "\<exists>l r. q = l @ strip q @ r \<and> (\<forall>c \<in> set l. is_space c) \<and> (\<forall>c \<in> set r. is_space c) \<and>
     (strip q = [] \<or> (\<not> is_space (hd (strip q)) \<and> \<not> is_space (last (strip q))))"
proof -
  define A where "A = dropWhile is_space q"
  define B where "B = dropWhile is_space (rev A)"
  define l where "l = takeWhile is_space q"
  define r where "r = rev (takeWhile is_space (rev A))"
  have s: "strip q = rev B" by (simp add: strip_def A_def B_def)
  have q: "q = l @ A" by (simp add: l_def A_def)
  have "rev A = takeWhile is_space (rev A) @ B" by (simp add: B_def)
  then have "rev (rev A) = rev (takeWhile is_space (rev A) @ B)" by simp
  then have A: "A = rev B @ r" by (simp add: r_def)
  have sl: "\<forall>c \<in> set l. is_space c"
    unfolding l_def by (auto dest: set_takeWhileD)
  have sr: "\<forall>c \<in> set r. is_space c"
    unfolding r_def by (auto dest: set_takeWhileD)
  have e: "rev B = [] \<or> (\<not> is_space (hd (rev B)) \<and> \<not> is_space (last (rev B)))"
  proof (cases "B = []")
    case True
    then show ?thesis by simp
  next
    case False
    then have hB: "\<not> is_space (hd B)" unfolding B_def by (rule hd_dropWhile)
    from False A have "A \<noteq> []" and "hd A = hd (rev B)" by simp_all
    then have "\<not> is_space (hd (rev B))" unfolding A_def by (metis hd_dropWhile)
    with hB False show ?thesis by (simp add: last_rev)
  qed
  from q A s sl sr e have "q = l @ strip q @ r \<and> (\<forall>c \<in> set l. is_space c) \<and>
     (\<forall>c \<in> set r. is_space c) \<and>
     (strip q = [] \<or> (\<not> is_space (hd (strip q)) \<and> \<not> is_space (last (strip q))))"
    by simp
  then show ?thesis by blast
qed

lemma list_posts_search_cong:
  "strip q = strip q' \<Longrightarrow>
   list_posts posts (a\<lparr>arg_search := Some q\<rparr>) = list_posts posts (a\<lparr>arg_search := Some q'\<rparr>)"
  by (simp add: list_posts_def list_posts_try_def Let_def split: sum.splits)

lemma list_posts_search_only:
  assumes "texts_ok posts"
  shows "list_posts posts \<lparr>arg_search = Some q, arg_sort = None, arg_direction = dir\<rparr> =
           (Reply 200 (JList (map JObj (spec_search (strip q) posts))), posts)"
  using list_posts_ok [OF assms, of "\<lparr>arg_search = Some q, arg_sort = None, arg_direction = dir\<rparr>"]
  by (simp add: spec_list_def)

text \<open>The handler over the store: each step keeps the objects that exist and returns what
  the handler over the collection returns.\<close>

lemma keeps_refl: "keeps h h"
  by (simp add: keeps_def)

lemma keeps_trans: "keeps h h1 \<Longrightarrow> keeps h1 h2 \<Longrightarrow> keeps h h2"
  by (auto simp: keeps_def)

lemma new_list_keeps: "keeps h (snd (new_list h refs))"
  by (simp add: keeps_def new_list_def)

lemma new_list_holds:
  "list_objs (snd (new_list h refs)) (next_list h) = refs"
  "fst (new_list h refs) = next_list h"
  "next_list (snd (new_list h refs)) = Suc (next_list h)"
  "dict_objs (snd (new_list h refs)) = dict_objs h"
  by (simp_all add: new_list_def)

lemma filter_exn_map:
  "filter_exn c (map f xs) =
     (case filter_exn (\<lambda>x. c (f x)) xs of Inl e \<Rightarrow> Inl e | Inr ys \<Rightarrow> Inr (map f ys))"
  by (induction xs) (auto split: sum.splits)

lemma traverse_map: "traverse k (map f xs) = traverse (\<lambda>x. k (f x)) xs"
  by (induction xs) (auto split: sum.splits)

lemma insort_key_zip_map:
  "insort_key fst (k, f x) (map (\<lambda>(k, x). (k, f x)) ps) =
   map (\<lambda>(k, x). (k, f x)) (insort_key fst (k, x) ps)"
  by (induction ps) auto

lemma sort_key_zip_map:
  "sort_key fst (map (\<lambda>(k, x). (k, f x)) ps) = map (\<lambda>(k, x). (k, f x)) (sort_key fst ps)"
  by (induction ps) (auto simp: insort_key_zip_map)

lemma zip_map_snd: "zip ks (map f xs) = map (\<lambda>(k, x). (k, f x)) (zip ks xs)"
  by (simp add: zip_map2 case_prod_beta')

lemma py_sorted_map:
  fixes k :: "'a \<Rightarrow> exn + 'k::linorder" and f :: "'b \<Rightarrow> 'a"
  shows "py_sorted k r (map f xs) =
     (case py_sorted (\<lambda>x. k (f x)) r xs of Inl e \<Rightarrow> Inl e | Inr ys \<Rightarrow> Inr (map f ys))"
proof (cases "traverse (\<lambda>x. k (f x)) xs")
  case (Inl e)
  then show ?thesis by (simp add: py_sorted_def traverse_map)
next
  case (Inr ks)
  define g where "g = (\<lambda>(k :: 'k, x :: 'b). (k, f x))"
  have m: "map snd (map g ps) = map f (map snd ps)" for ps
    by (induction ps) (auto simp: g_def)
  have z: "zip ks (map f xs) = map g (zip ks xs)"
    by (simp add: zip_map_snd g_def)
  have s: "sort_key fst (map g ps) = map g (sort_key fst ps)" for ps
    unfolding g_def by (rule sort_key_zip_map)
  have asc: "map snd (sort_key fst (zip ks (map f xs))) = map f (map snd (sort_key fst (zip ks xs)))"
    by (simp only: z s m)
  have "rev (zip ks (map f xs)) = map g (rev (zip ks xs))"
    by (simp only: z rev_map)
  then have "rev (sort_key fst (rev (zip ks (map f xs)))) =
             map g (rev (sort_key fst (rev (zip ks xs))))"
    by (simp only: s rev_map)
  then have desc: "map snd (rev (sort_key fst (rev (zip ks (map f xs))))) =
             map f (map snd (rev (sort_key fst (rev (zip ks xs)))))"
    by (simp only: m)
  show ?thesis
    using asc desc by (simp add: py_sorted_def traverse_map Inr del: map_map)
qed

lemma jsonify_list_view: "jsonify_list h a = JList (map JObj (view h a))"
  by (simp add: jsonify_list_def view_def)

lemma keeps_view: "keeps h h' \<Longrightarrow> a < next_list h \<Longrightarrow> view h' a = view h a"
  by (simp add: keeps_def view_def)

lemma new_list_view: "view (snd (new_list h refs)) (next_list h) = map (dict_objs h) refs"
  by (simp add: view_def new_list_def)

lemma list_copy_view:
  "view (snd (list_copy h a)) (fst (list_copy h a)) = view h a"
  "keeps h (snd (list_copy h a))"
  "fst (list_copy h a) < next_list (snd (list_copy h a))"
  by (simp_all add: list_copy_def new_list_view new_list_keeps view_def new_list_holds)

lemma search_posts_h_refines:
  assumes "search_posts_h h a q = (res, h')" and "a < next_list h"
  shows "keeps h h' \<and>
         (case res of
            Inl e \<Rightarrow> search_posts (view h a) q = Inl e
          | Inr a' \<Rightarrow> search_posts (view h a) q = Inr (view h' a') \<and> a' < next_list h')"
proof (cases "q = []")
  case True
  with assms show ?thesis
    by (auto simp: search_posts_h_def search_posts_def keeps_refl)
next
  case False
  show ?thesis
  proof (cases "filter_exn (\<lambda>post. matches (lower q) (dict_objs h post)) (list_objs h a)")
    case (Inl e)
    with assms False show ?thesis
      by (auto simp: search_posts_h_def search_posts_def view_def filter_exn_map keeps_refl)
  next
    case (Inr refs)
    with assms False have r: "res = Inr (fst (new_list h refs))" and h': "h' = snd (new_list h refs)"
      by (auto simp: search_posts_h_def split: prod.splits)
    have "search_posts (view h a) q = Inr (map (dict_objs h) refs)"
      using False Inr by (simp add: search_posts_def view_def filter_exn_map)
    then show ?thesis
      by (simp add: r h' new_list_keeps new_list_view new_list_holds)
  qed
qed

lemma sort_posts_h_refines:
  assumes "sort_posts_h h a f d = (res, h')"
  shows "keeps h h' \<and>
         (case res of
            Inl e \<Rightarrow> sort_posts (view h a) f d = Inl e
          | Inr a' \<Rightarrow> sort_posts (view h a) f d = Inr (view h' a'))"
proof (cases "f \<notin> {''title'', ''content''}")
  case True
  with assms show ?thesis
    by (auto simp: sort_posts_h_def sort_posts_def keeps_refl)
next
  case False
  show ?thesis
  proof (cases "py_sorted (\<lambda>post. get_lower f (dict_objs h post)) (d = ''desc'') (list_objs h a)")
    case (Inl e)
    with assms False show ?thesis
      by (auto simp: sort_posts_h_def sort_posts_def view_def py_sorted_map keeps_refl)
  next
    case (Inr refs)
    with assms False have r: "res = Inr (fst (new_list h refs))" and h': "h' = snd (new_list h refs)"
      by (auto simp: sort_posts_h_def split: prod.splits)
    have "sort_posts (view h a) f d = Inr (map (dict_objs h) refs)"
      using False Inr by (simp add: sort_posts_def view_def py_sorted_map)
    then show ?thesis
      by (simp add: r h' new_list_keeps new_list_view new_list_holds)
  qed
qed

lemma list_posts_h_refines:
  "keeps h (snd (list_posts_h h a)) \<and>
   next_list h < next_list (snd (list_posts_h h a)) \<and>
   fst (list_posts_h h a) = fst (list_posts (collection h) a)"
proof -
  obtain copied h1 where c: "list_copy h POSTS_ref = (copied, h1)"
    by (cases "list_copy h POSTS_ref")
  from list_copy_view [of h POSTS_ref] c
  have v1: "view h1 copied = collection h" and k1: "keeps h h1" and a1: "copied < next_list h1"
    by (simp_all add: collection_def)
  from c have n1: "next_list h < next_list h1"
    by (auto simp: list_copy_def new_list_def)
  define q where "q = strip (case arg_search a of None \<Rightarrow> [] | Some s \<Rightarrow> s)"
  obtain res h2 where s: "search_posts_h h1 copied q = (res, h2)"
    by (cases "search_posts_h h1 copied q")
  from search_posts_h_refines [OF s a1] v1
  have k2: "keeps h1 h2"
    and r2: "case res of
               Inl e \<Rightarrow> search_posts (collection h) q = Inl e
             | Inr a' \<Rightarrow> search_posts (collection h) q = Inr (view h2 a') \<and> a' < next_list h2"
    by (simp, cases res) simp_all
  have k12: "keeps h h2" using k1 k2 by (rule keeps_trans)
  from n1 k2 have n2: "next_list h < next_list h2" by (simp add: keeps_def)
  show ?thesis
  proof (cases res)
    case (Inl e)
    with r2 have "search_posts (collection h) q = Inl e" by simp
    then show ?thesis
      using c s Inl k12 n2
      by (simp add: list_posts_h_def list_posts_def list_posts_try_def q_def [symmetric] Let_def)
  next
    case (Inr a')
    with r2 have sp: "search_posts (collection h) q = Inr (view h2 a')" by simp
    define d where "d = (case arg_direction a of None \<Rightarrow> ''asc'' | Some d \<Rightarrow> d)"
    show ?thesis
    proof (cases "\<exists>f. arg_sort a = Some f \<and> f \<noteq> [] \<and> d \<in> {''asc'', ''desc''}")
      case False
      then show ?thesis
        using c s Inr k12 sp n2
        by (auto simp: list_posts_h_def list_posts_def list_posts_try_def q_def [symmetric]
            d_def [symmetric] Let_def jsonify_list_view split: option.splits)
    next
      case True
      then obtain f where f: "arg_sort a = Some f" "f \<noteq> []" "d \<in> {''asc'', ''desc''}"
        by blast
      obtain res3 h3 where t: "sort_posts_h h2 a' f d = (res3, h3)"
        by (cases "sort_posts_h h2 a' f d")
      from sort_posts_h_refines [OF t]
      have k3: "keeps h2 h3"
        and r3: "case res3 of
                   Inl e \<Rightarrow> sort_posts (view h2 a') f d = Inl e
                 | Inr b \<Rightarrow> sort_posts (view h2 a') f d = Inr (view h3 b)"
        by simp_all
      have k13: "keeps h h3" using k12 k3 by (rule keeps_trans)
      from n2 k3 have n3: "next_list h < next_list h3" by (simp add: keeps_def)
      show ?thesis
        using c s Inr sp f t r3 k13 n3
        by (cases res3)
           (simp_all add: list_posts_h_def list_posts_def list_posts_try_def q_def [symmetric]
              d_def [symmetric] Let_def jsonify_list_view)
    qed
  qed
qed

lemma keeps_is_broken_by_a_write:
  "\<not> keeps seed_heap (seed_heap\<lparr>list_objs := (list_objs seed_heap)(POSTS_ref := [2, 1, 0])\<rparr>)"
  by (simp add: keeps_def seed_heap_def POSTS_ref_def)

lemma collection_seed_heap: "collection seed_heap = POSTS"
  by (simp add: collection_def view_def seed_heap_def POSTS_def POSTS_ref_def)

section \<open>The claims\<close>

text \<open>The equations that evaluate the handlers on a concrete request.\<close>

lemmas eval_defs = lower_def lower_char_def char_of_def bit_Suc_0_iff is_space_def strip_def
  sublist_code list_posts_def list_posts_try_def search_posts_def matches_def get_lower_def
  sort_posts_def py_sorted_def POSTS_def Let_def add_post_def add_post_try_def id_of_def
  max_default_def update_post_def update_post_try_def delete_post_def delete_post_try_def
  merge_def not_found_def deleted_def str_int_def no_data_def missing_reply_def
  posts_ok_def int_ids_def texts_ok_def

subsection \<open>Runs of the handlers\<close>

text \<open>Bodies that are not JSON objects take the branches the source takes for them.\<close>

lemma non_object_bodies:
  "add_post POSTS (JList [JStr ''title'', JStr ''content'']) = (ServerError TypeError, POSTS)"
  "add_post POSTS (JStr ''title and content'') = (ServerError TypeError, POSTS)"
  "add_post POSTS (JInt 5) = (ServerError TypeError, POSTS)"
  "add_post POSTS (JList [JInt 1]) = (Reply 400 (missing_reply [''title'', ''content'']), POSTS)"
  "add_post POSTS JNull = (Reply 400 no_data, POSTS)"
  "update_post POSTS 1 (JList [JInt 1]) = (ServerError AttributeError, POSTS)"
  "update_post POSTS 9 (JList [JInt 1]) = (Reply 404 (not_found 9), POSTS)"
  by (simp_all add: add_post_def add_post_try_def update_post_def update_post_try_def
      POSTS_def id_of_def max_default_def sublist_code)

text \<open>A title that is not a str is stored by \<open>add_post\<close>; sorting by title then fails.\<close>

lemma sort_of_non_text_is_500:
  "list_posts
     (snd (add_post POSTS (JObj [(''title'', JInt 5), (''content'', JStr ''x'')])))
     \<lparr>arg_search = None, arg_sort = Some ''title'', arg_direction = Some ''asc''\<rparr> =
   (ServerError AttributeError,
    snd (add_post POSTS (JObj [(''title'', JInt 5), (''content'', JStr ''x'')])))"
  by (simp add: eval_defs)

text \<open>The collection after that POST is one the service can hold, and \<open>texts_ok\<close> is lost.\<close>

lemma non_text_title_reachable:
  "reachable (snd (handle POSTS (POST (JObj [(''title'', JInt 5), (''content'', JStr ''x'')]))))"
  by (rule reachable.step) (rule reachable.init)

lemma non_text_title_stored:
  "texts_ok POSTS"
  "\<not> texts_ok (snd (add_post POSTS (JObj [(''title'', JInt 5), (''content'', JStr ''x'')])))"
  by (simp_all add: texts_ok_def add_post_def add_post_try_def POSTS_def id_of_def
      max_default_def)

text \<open>Posts whose lowercased titles are equal keep their order, ascending and descending.\<close>

lemma ascending_keeps_ties:
  "sort_posts [[(''id'', JInt 1), (''title'', JStr ''a'')],
               [(''id'', JInt 2), (''title'', JStr ''A'')],
               [(''id'', JInt 3), (''title'', JStr ''b'')]] ''title'' ''asc'' =
   Inr [[(''id'', JInt 1), (''title'', JStr ''a'')],
        [(''id'', JInt 2), (''title'', JStr ''A'')],
        [(''id'', JInt 3), (''title'', JStr ''b'')]]"
  by (simp add: sort_posts_def py_sorted_def get_lower_def lower_def lower_char_def
      char_of_def bit_Suc_0_iff)

lemma descending_keeps_ties:
  "sort_posts [[(''id'', JInt 1), (''title'', JStr ''a'')],
               [(''id'', JInt 2), (''title'', JStr ''A'')],
               [(''id'', JInt 3), (''title'', JStr ''b'')]] ''title'' ''desc'' =
   Inr [[(''id'', JInt 3), (''title'', JStr ''b'')],
        [(''id'', JInt 1), (''title'', JStr ''a'')],
        [(''id'', JInt 2), (''title'', JStr ''A'')]]"
  by (simp add: sort_posts_def py_sorted_def get_lower_def lower_def lower_char_def
      char_of_def bit_Suc_0_iff)

subsection \<open>C1: missing fields of a POST body\<close>

text \<open>
  C1, as the code has it. A POST whose body is a non-empty JSON object without
  \<^verbatim>\<open>title\<close> or without \<^verbatim>\<open>content\<close> is answered with 400, and \<^verbatim>\<open>missing_fields\<close> lists
  every absent one of the two, title first; the collection is unchanged. The empty
  object \<^verbatim>\<open>{}\<close> does not reach that check: \<^verbatim>\<open>if not new_post\<close> answers it with 400 and
  the error \<^verbatim>\<open>Keine Daten gesendet\<close>, without \<^verbatim>\<open>missing_fields\<close>.
\<close>

theorem add_post_reports_missing_fields:
  assumes "d \<noteq> []"
    and "''title'' \<notin> fst ` set d \<or> ''content'' \<notin> fst ` set d"
  shows "add_post posts (JObj d) =
           (Reply 400
              (JObj [(''error'', JStr ''Fehlende Pflichtfelder''),
                     (''missing_fields'',
                      JList (map JStr (filter (\<lambda>k. k \<notin> fst ` set d) [''title'', ''content''])))]),
            posts) \<and>
         add_post posts (JObj []) =
           (Reply 400 (JObj [(''error'', JStr ''Keine Daten gesendet'')]), posts)"
  using assms
  by (auto simp: add_post_def add_post_try_def missing_reply_def no_data_def)

text \<open>A body with neither field: both are reported.\<close>

theorem add_post_reports_missing_fields_witness:
  "[(''author'', JStr ''x'')] \<noteq> [] \<and>
   ''title'' \<notin> fst ` set [(''author'', JStr ''x'')] \<and>
   ''content'' \<notin> fst ` set [(''author'', JStr ''x'')] \<and>
   add_post POSTS (JObj [(''author'', JStr ''x'')]) =
     (Reply 400
        (JObj [(''error'', JStr ''Fehlende Pflichtfelder''),
               (''missing_fields'', JList [JStr ''title'', JStr ''content''])]),
      POSTS)"
  using add_post_reports_missing_fields [of "[(''author'', JStr ''x'')]" POSTS]
  by simp

text \<open>
  The claim as it was stated fails at the body \<^verbatim>\<open>{}\<close>: the reply is 400, but its body
  has no \<^verbatim>\<open>missing_fields\<close>.
\<close>

theorem add_post_empty_object_counterexample:
  "fst (add_post POSTS (JObj [])) = Reply 400 (JObj [(''error'', JStr ''Keine Daten gesendet'')]) \<and>
   body_field (fst (add_post POSTS (JObj []))) ''missing_fields'' = None"
  by (simp add: add_post_def add_post_try_def no_data_def)

subsection \<open>C2: the id of a new post\<close>

text \<open>
  C2. A POST whose body is a non-empty JSON object with \<^verbatim>\<open>title\<close> and \<^verbatim>\<open>content\<close> gets
  the id 1 + the greatest id of the collection, or 1 when the collection is empty; the
  post, with that id and every other key of the body, is appended, so the collection
  grows by one; the reply is 201 and carries the created post. An \<^verbatim>\<open>id\<close> sent in the
  body is overwritten.
\<close>

theorem add_post_assigns_next_id:
  assumes "posts_ok posts"
    and "d \<noteq> []"
    and "''title'' \<in> fst ` set d"
    and "''content'' \<in> fst ` set d"
  shows "let new_id = (if posts = [] then 1 else 1 + Max (set (int_ids posts)));
             created = AList.update ''id'' (JInt new_id) d
         in add_post posts (JObj d) = (Reply 201 (JObj created), posts @ [created]) \<and>
            length (snd (add_post posts (JObj d))) = length posts + 1 \<and>
            map_of created ''id'' = Some (JInt new_id) \<and>
            (\<forall>k. k \<noteq> ''id'' \<longrightarrow> map_of created k = map_of d k)"
proof -
  have "max_default (int_ids posts) 0 + 1 =
          (if posts = [] then 1 else 1 + Max (set (int_ids posts)))"
    using assms(1) by (simp add: max_default_Max int_ids_empty_iff)
  then show ?thesis
    using add_post_ok [OF assms] by (simp add: Let_def update_conv')
qed

text \<open>On the seed data the new post gets the id 4.\<close>

theorem add_post_assigns_next_id_witness:
  "posts_ok POSTS \<and>
   add_post POSTS (JObj [(''title'', JStr ''T''), (''content'', JStr ''C'')]) =
     (Reply 201 (JObj [(''title'', JStr ''T''), (''content'', JStr ''C''), (''id'', JInt 4)]),
      POSTS @ [[(''title'', JStr ''T''), (''content'', JStr ''C''), (''id'', JInt 4)]])"
proof -
  have ok: "posts_ok POSTS" by (simp add: POSTS_invariant)
  have ids: "int_ids POSTS = [1, 2, 3]" by (simp add: int_ids_def POSTS_def id_of_def)
  have ne: "POSTS \<noteq> []" by (simp add: POSTS_def)
  from add_post_assigns_next_id [OF ok, of "[(''title'', JStr ''T''), (''content'', JStr ''C'')]"]
  show ?thesis using ok ids ne by (simp add: Let_def)
qed

subsection \<open>C3: ids stay unique\<close>

text \<open>
  C3. If the ids of the collection are pairwise distinct before a GET, POST, PUT or
  DELETE request, they are pairwise distinct after it, whatever the request carries and
  whatever the reply is: POST takes an id above the maximum, PUT never writes the key
  \<^verbatim>\<open>id\<close>, DELETE only removes. Every id is still an int afterwards.
\<close>

theorem handlers_keep_ids_unique:
  assumes "posts_ok posts" and "distinct (int_ids posts)"
  shows "posts_ok (snd (handle posts r)) \<and> distinct (int_ids (snd (handle posts r)))"
  using assms by (rule handle_invariant)

text \<open>A POST that sends the id 1 itself: the stored ids are 1, 2, 3, 4.\<close>

theorem handlers_keep_ids_unique_witness:
  "posts_ok POSTS \<and> distinct (int_ids POSTS) \<and>
   int_ids (snd (handle POSTS (POST (JObj [(''title'', JStr ''T''), (''content'', JStr ''C''), (''id'', JInt 1)])))) = [1, 2, 3, 4] \<and>
   distinct (int_ids (snd (handle POSTS (POST (JObj [(''title'', JStr ''T''), (''content'', JStr ''C''), (''id'', JInt 1)])))))"
proof -
  have ok: "posts_ok POSTS" and d: "distinct (int_ids POSTS)"
    by (simp_all add: POSTS_invariant)
  have "int_ids (snd (handle POSTS (POST (JObj [(''title'', JStr ''T''), (''content'', JStr ''C''), (''id'', JInt 1)])))) = [1, 2, 3, 4]"
    by (simp add: eval_defs)
  with handlers_keep_ids_unique [OF ok d, of "POST (JObj [(''title'', JStr ''T''), (''content'', JStr ''C''), (''id'', JInt 1)])"]
  show ?thesis using ok d by simp
qed

subsection \<open>C4: when the direction is checked\<close>

text \<open>
  C4, as the code has it. A GET is answered with 400 only when \<^verbatim>\<open>sort\<close> is present and
  not empty and \<^verbatim>\<open>direction\<close> is neither \<^verbatim>\<open>asc\<close> nor \<^verbatim>\<open>desc\<close>. On a collection whose
  titles and contents are strs the converse holds too, and every other request is
  answered with 200: with \<^verbatim>\<open>sort\<close> absent or empty any \<^verbatim>\<open>direction\<close> passes. An omitted
  \<^verbatim>\<open>direction\<close> is \<^verbatim>\<open>asc\<close>.
\<close>

theorem list_posts_direction_check:
  "(status (fst (list_posts posts a)) = 400 \<longrightarrow>
      (\<exists>f. arg_sort a = Some f \<and> f \<noteq> []) \<and>
      arg_direction a \<notin> {None, Some ''asc'', Some ''desc''}) \<and>
   (texts_ok posts \<longrightarrow>
      status (fst (list_posts posts a)) =
        (if (\<exists>f. arg_sort a = Some f \<and> f \<noteq> []) \<and>
            arg_direction a \<notin> {None, Some ''asc'', Some ''desc''}
         then 400 else 200)) \<and>
   list_posts posts (a\<lparr>arg_direction := None\<rparr>) =
     list_posts posts (a\<lparr>arg_direction := Some ''asc''\<rparr>)"
proof (intro conjI impI)
  assume "status (fst (list_posts posts a)) = 400"
  then have c: "(\<exists>f. arg_sort a = Some f \<and> f \<noteq> []) \<and>
      arg_direction a \<notin> {None, Some ''asc'', Some ''desc''}"
    by (rule list_posts_400_only)
  from c show "\<exists>f. arg_sort a = Some f \<and> f \<noteq> []" ..
  from c show "arg_direction a \<notin> {None, Some ''asc'', Some ''desc''}" ..
next
  assume "texts_ok posts"
  then show "status (fst (list_posts posts a)) =
        (if (\<exists>f. arg_sort a = Some f \<and> f \<noteq> []) \<and>
            arg_direction a \<notin> {None, Some ''asc'', Some ''desc''}
         then 400 else 200)"
    by (rule list_posts_status)
next
  have "arg_direction (a\<lparr>arg_direction := None\<rparr>) = None" by simp
  from list_posts_default_direction [OF this, of posts]
  show "list_posts posts (a\<lparr>arg_direction := None\<rparr>) =
     list_posts posts (a\<lparr>arg_direction := Some ''asc''\<rparr>)" by simp
qed

text \<open>On the seed data: a wrong direction passes without \<^verbatim>\<open>sort\<close> and is refused with it.\<close>

theorem list_posts_direction_check_witness:
  "status (fst (list_posts POSTS
     \<lparr>arg_search = Some ''python'', arg_sort = None, arg_direction = Some ''bogus''\<rparr>)) = 200 \<and>
   status (fst (list_posts POSTS
     \<lparr>arg_search = None, arg_sort = Some ''title'', arg_direction = Some ''bogus''\<rparr>)) = 400"
proof -
  have t: "texts_ok POSTS" by (simp add: texts_ok_def POSTS_def)
  have a: "status (fst (list_posts POSTS
     \<lparr>arg_search = Some ''python'', arg_sort = None, arg_direction = Some ''bogus''\<rparr>)) = 200"
    using list_posts_direction_check
      [of POSTS "\<lparr>arg_search = Some ''python'', arg_sort = None, arg_direction = Some ''bogus''\<rparr>",
       THEN conjunct2, THEN conjunct1, rule_format, OF t]
    by simp
  have b: "status (fst (list_posts POSTS
     \<lparr>arg_search = None, arg_sort = Some ''title'', arg_direction = Some ''bogus''\<rparr>)) = 400"
    using list_posts_direction_check
      [of POSTS "\<lparr>arg_search = None, arg_sort = Some ''title'', arg_direction = Some ''bogus''\<rparr>",
       THEN conjunct2, THEN conjunct1, rule_format, OF t]
    by simp
  from a b show ?thesis by (rule conjI)
qed

text \<open>
  The claim as it was stated fails once a post has a title that is not a str, which
  \<open>add_post\<close> accepts with 201: the search then raises on \<^verbatim>\<open>.lower()\<close> and the GET, with
  no \<^verbatim>\<open>sort\<close>, is answered with 500 and not with 200.
\<close>

theorem list_posts_direction_counterexample:
  "status (fst (add_post POSTS (JObj [(''title'', JInt 5), (''content'', JStr ''x'')]))) = 201 \<and>
   status (fst (list_posts
      (snd (add_post POSTS (JObj [(''title'', JInt 5), (''content'', JStr ''x'')])))
      \<lparr>arg_search = Some ''a'', arg_sort = None, arg_direction = Some ''bogus''\<rparr>)) = 500"
  by (simp add: eval_defs)

subsection \<open>C5: filter, then sort\<close>

text \<open>
  C5, as the code has it. On a collection whose titles and contents are strs, every GET
  that is not refused for its direction (\<^verbatim>\<open>sort\<close> absent or empty, or \<^verbatim>\<open>direction\<close>
  absent, \<^verbatim>\<open>asc\<close> or \<^verbatim>\<open>desc\<close>) is answered with 200 and the list \<open>spec_list\<close>: the
  collection filtered by the stripped query (case-insensitive substring of title or
  content, a missing field being empty, an empty query keeping all), then, only for
  \<^verbatim>\<open>sort\<close> equal to \<^verbatim>\<open>title\<close> or \<^verbatim>\<open>content\<close>, sorted by the lowercased field, descending
  for \<^verbatim>\<open>desc\<close>; any other \<^verbatim>\<open>sort\<close> leaves the filtered list as it is.
\<close>

theorem list_posts_filter_then_sort:
  assumes "texts_ok posts"
    and "arg_sort a = None \<or> arg_sort a = Some [] \<or>
         arg_direction a \<in> {None, Some ''asc'', Some ''desc''}"
  shows "list_posts posts a = (Reply 200 (JList (map JObj (spec_list posts a))), posts)"
  using assms by (rule list_posts_ok)

text \<open>On the seed data: the three posts with a \<^verbatim>\<open>t\<close>, by title, descending.\<close>

theorem list_posts_filter_then_sort_witness:
  "list_posts POSTS
     \<lparr>arg_search = Some '' T '', arg_sort = Some ''title'', arg_direction = Some ''desc''\<rparr> =
     (Reply 200 (JList (map JObj [POSTS ! 2, POSTS ! 0, POSTS ! 1])), POSTS)"
proof -
  have t: "texts_ok POSTS" by (simp add: texts_ok_def POSTS_def)
  have s: "spec_list POSTS
     \<lparr>arg_search = Some '' T '', arg_sort = Some ''title'', arg_direction = Some ''desc''\<rparr> =
     [POSTS ! 2, POSTS ! 0, POSTS ! 1]"
    by (simp add: spec_list_def spec_search_def spec_sort_def spec_hit_def text_of_def eval_defs)
  from list_posts_filter_then_sort [OF t,
      of "\<lparr>arg_search = Some '' T '', arg_sort = Some ''title'', arg_direction = Some ''desc''\<rparr>"]
  show ?thesis by (simp add: s)
qed

text \<open>
  The claim as it was stated fails for an unknown \<^verbatim>\<open>sort\<close> with a wrong direction:
  the direction is checked before the field, and the reply is 400, not the unsorted
  list with 200.
\<close>

theorem list_posts_unknown_sort_counterexample:
  "list_posts POSTS \<lparr>arg_search = None, arg_sort = Some ''id'', arg_direction = Some ''up''\<rparr> =
     (Reply 400 bad_direction, POSTS)"
  by (simp add: eval_defs)

subsection \<open>C6: what PUT changes\<close>

text \<open>
  C6. A PUT with a non-empty JSON object for an id of the collection changes the first
  post \<open>p\<close> with that id into \<open>p'\<close> and nothing else: every key of the body but
  \<^verbatim>\<open>id\<close> has the body's value in \<open>p'\<close>, every other key (and \<^verbatim>\<open>id\<close>, also when the body
  has one) has the value it had in \<open>p\<close>, the posts before and after are the same, and
  the reply is 200 with \<open>p'\<close>.
\<close>

theorem update_post_merges:
  assumes "posts_ok posts"
    and "d \<noteq> []"
    and "distinct (map fst d)"
    and "pid \<in> set (int_ids posts)"
  shows "\<exists>pre p p' suf.
           posts = pre @ p # suf \<and> id_of p = Inr pid \<and>
           (\<forall>q \<in> set pre. id_of q \<noteq> Inr pid) \<and>
           update_post posts pid (JObj d) = (Reply 200 (JObj p'), pre @ p' # suf) \<and>
           (\<forall>k v. k \<noteq> ''id'' \<and> map_of d k = Some v \<longrightarrow> map_of p' k = Some v) \<and>
           (\<forall>k. k = ''id'' \<or> k \<notin> fst ` set d \<longrightarrow> map_of p' k = map_of p k) \<and>
           id_of p' = Inr pid"
proof -
  from split_first_id [OF assms(1) assms(4)] obtain pre p suf where
    s: "posts = pre @ p # suf" and i: "id_of p = Inr pid"
    and f: "\<forall>q \<in> set pre. id_of q \<noteq> Inr pid"
    by blast
  from assms(1) s have ok: "posts_ok pre"
    by (simp add: posts_ok_append)
  have l: "update_loop posts pid (JObj d) = Inr (Some (merge d p, pre @ merge d p # suf))"
    unfolding s using ok f i by (rule update_loop_found)
  have r: "update_post posts pid (JObj d) = (Reply 200 (JObj (merge d p)), pre @ merge d p # suf)"
    using assms(2) by (simp add: update_post_def update_post_try_def l)
  have m: "\<forall>k v. k \<noteq> ''id'' \<and> map_of d k = Some v \<longrightarrow> map_of (merge d p) k = Some v"
    by (simp add: merge_lookup [OF assms(3)])
  have u: "\<forall>k. k = ''id'' \<or> k \<notin> fst ` set d \<longrightarrow> map_of (merge d p) k = map_of p k"
    by (force simp: merge_lookup [OF assms(3)] split: option.splits dest!: map_of_SomeD)
  have "id_of (merge d p) = Inr pid"
    by (simp add: id_of_merge i)
  with s i f r m u show ?thesis by blast
qed

text \<open>On the seed data: a new title for post 1, the id 99 of the body ignored.\<close>

theorem update_post_merges_witness:
  "update_post POSTS 1 (JObj [(''title'', JStr ''New''), (''id'', JInt 99)]) =
     (Reply 200 (JObj [(''id'', JInt 1), (''title'', JStr ''New''),
                       (''content'', JStr ''This is my first post.'')]),
      [[(''id'', JInt 1), (''title'', JStr ''New''),
        (''content'', JStr ''This is my first post.'')],
       POSTS ! 1, POSTS ! 2]) \<and>
   (\<exists>pre p p' suf.
       POSTS = pre @ p # suf \<and> id_of p = Inr 1 \<and>
       (\<forall>q \<in> set pre. id_of q \<noteq> Inr 1) \<and>
       update_post POSTS 1 (JObj [(''title'', JStr ''New''), (''id'', JInt 99)]) =
         (Reply 200 (JObj p'), pre @ p' # suf) \<and>
       (\<forall>k v. k \<noteq> ''id'' \<and>
              map_of [(''title'', JStr ''New''), (''id'', JInt 99)] k = Some v \<longrightarrow>
              map_of p' k = Some v) \<and>
       (\<forall>k. k = ''id'' \<or> k \<notin> fst ` set [(''title'', JStr ''New''), (''id'', JInt 99)] \<longrightarrow>
            map_of p' k = map_of p k) \<and>
       id_of p' = Inr 1)"
proof -
  have ok: "posts_ok POSTS" by (simp add: POSTS_invariant)
  have ids: "1 \<in> set (int_ids POSTS)" by (simp add: int_ids_def POSTS_def id_of_def)
  have ne: "[(''title'', JStr ''New''), (''id'', JInt 99)] \<noteq> []" by simp
  have di: "distinct (map fst [(''title'', JStr ''New''), (''id'', JInt 99)])" by simp
  have e: "update_post POSTS 1 (JObj [(''title'', JStr ''New''), (''id'', JInt 99)]) =
     (Reply 200 (JObj [(''id'', JInt 1), (''title'', JStr ''New''),
                       (''content'', JStr ''This is my first post.'')]),
      [[(''id'', JInt 1), (''title'', JStr ''New''),
        (''content'', JStr ''This is my first post.'')],
       POSTS ! 1, POSTS ! 2])"
    by (simp add: update_post_def update_post_try_def POSTS_def id_of_def merge_def)
  from e update_post_merges [OF ok ne di ids] show ?thesis by (rule conjI)
qed

subsection \<open>C7: an unknown id\<close>

text \<open>
  C7. A DELETE, or a PUT with a body that is not empty, for an id that no post has is
  answered with 404 and the message \<^verbatim>\<open>Kein Post mit ID {id} vorhanden.\<close>, and the
  collection stays as it is; so the same DELETE again is answered in the same way.
\<close>

theorem unknown_id_is_404:
  assumes "posts_ok posts" and "pid \<notin> set (int_ids posts)"
  shows "delete_post posts pid =
           (Reply 404
              (JObj [(''error'', JStr ''Post nicht gefunden''),
                     (''message'', JStr (''Kein Post mit ID '' @ str_int pid @ '' vorhanden.''))]),
            posts) \<and>
         (truthy body \<longrightarrow>
            update_post posts pid body = (Reply 404 (not_found pid), posts)) \<and>
         delete_post (snd (delete_post posts pid)) pid = delete_post posts pid \<and>
         not_found pid =
           JObj [(''error'', JStr ''Post nicht gefunden''),
                 (''message'', JStr (''Kein Post mit ID '' @ str_int pid @ '' vorhanden.''))]"
  using assms
  by (simp add: delete_post_def delete_post_try_def delete_loop_absent
      update_post_def update_post_try_def update_loop_absent not_found_def)

text \<open>On the seed data, for the id 999.\<close>

theorem unknown_id_is_404_witness:
  "delete_post POSTS 999 =
     (Reply 404 (JObj [(''error'', JStr ''Post nicht gefunden''),
                       (''message'', JStr ''Kein Post mit ID 999 vorhanden.'')]), POSTS) \<and>
   update_post POSTS 999 (JObj [(''title'', JStr ''New'')]) =
     (Reply 404 (JObj [(''error'', JStr ''Post nicht gefunden''),
                       (''message'', JStr ''Kein Post mit ID 999 vorhanden.'')]), POSTS) \<and>
   delete_post (snd (delete_post POSTS 999)) 999 =
     (Reply 404 (JObj [(''error'', JStr ''Post nicht gefunden''),
                       (''message'', JStr ''Kein Post mit ID 999 vorhanden.'')]), POSTS)"
proof -
  have ok: "posts_ok POSTS" by (simp add: POSTS_invariant)
  have ids: "999 \<notin> set (int_ids POSTS)" by (simp add: int_ids_def POSTS_def id_of_def)
  have s: "str_int 999 = ''999''" by (simp add: str_int_def)
  from unknown_id_is_404 [OF ok ids, of "JObj [(''title'', JStr ''New'')]"]
  show ?thesis by (simp add: s)
qed

subsection \<open>C8: what DELETE removes\<close>

text \<open>
  C8. A DELETE for an id of the collection removes the first post with that id, the
  others staying in order; the reply is 200 with the message
  \<^verbatim>\<open>Post with id {id} has been deleted successfully.\<close>; a GET without parameters then
  lists the remaining posts, and, the ids being unique, none of them has that id.
\<close>

theorem delete_post_removes_first:
  assumes "posts_ok posts" and "pid \<in> set (int_ids posts)"
  shows "\<exists>pre p suf.
           posts = pre @ p # suf \<and> id_of p = Inr pid \<and>
           (\<forall>q \<in> set pre. id_of q \<noteq> Inr pid) \<and>
           delete_post posts pid =
             (Reply 200
                (JObj [(''message'',
                        JStr (''Post with id '' @ str_int pid @
                              '' has been deleted successfully.''))]),
              pre @ suf) \<and>
           list_posts (pre @ suf) \<lparr>arg_search = None, arg_sort = None, arg_direction = None\<rparr> =
             (Reply 200 (JList (map JObj (pre @ suf))), pre @ suf) \<and>
           (distinct (int_ids posts) \<longrightarrow>
              pid \<notin> set (int_ids (pre @ suf)) \<and>
              (\<forall>q \<in> set (pre @ suf). id_of q \<noteq> Inr pid))"
proof -
  from split_first_id [OF assms] obtain pre p suf where
    s: "posts = pre @ p # suf" and i: "id_of p = Inr pid"
    and f: "\<forall>q \<in> set pre. id_of q \<noteq> Inr pid"
    by blast
  from assms(1) s have ok: "posts_ok pre" and ok': "posts_ok (pre @ suf)"
    by (simp_all add: posts_ok_append posts_ok_Cons)
  have l: "delete_loop posts pid = Inr (Some (pre @ suf))"
    unfolding s using ok f i by (rule delete_loop_found)
  have r: "delete_post posts pid =
             (Reply 200
                (JObj [(''message'',
                        JStr (''Post with id '' @ str_int pid @
                              '' has been deleted successfully.''))]),
              pre @ suf)"
    by (simp add: delete_post_def delete_post_try_def l deleted_def)
  have g: "list_posts (pre @ suf) \<lparr>arg_search = None, arg_sort = None, arg_direction = None\<rparr> =
             (Reply 200 (JList (map JObj (pre @ suf))), pre @ suf)"
    by (simp add: list_posts_def list_posts_try_def strip_def search_posts_def)
  have ids: "int_ids posts = int_ids pre @ pid # int_ids suf"
    by (simp add: s int_ids_append int_ids_Cons_ok [OF i])
  have n: "distinct (int_ids posts) \<longrightarrow> pid \<notin> set (int_ids (pre @ suf))"
    by (auto simp: ids int_ids_append)
  have "pid \<notin> set (int_ids (pre @ suf)) \<longrightarrow> (\<forall>q \<in> set (pre @ suf). id_of q \<noteq> Inr pid)"
    by (auto simp: int_ids_def)
  with n have "distinct (int_ids posts) \<longrightarrow>
      pid \<notin> set (int_ids (pre @ suf)) \<and> (\<forall>q \<in> set (pre @ suf). id_of q \<noteq> Inr pid)"
    by blast
  with s i f r g show ?thesis by blast
qed

text \<open>On the seed data, for the id 2.\<close>

theorem delete_post_removes_first_witness:
  "delete_post POSTS 2 =
     (Reply 200 (JObj [(''message'', JStr ''Post with id 2 has been deleted successfully.'')]),
      [POSTS ! 0, POSTS ! 2]) \<and>
   list_posts (snd (delete_post POSTS 2))
       \<lparr>arg_search = None, arg_sort = None, arg_direction = None\<rparr> =
     (Reply 200 (JList [JObj (POSTS ! 0), JObj (POSTS ! 2)]), [POSTS ! 0, POSTS ! 2]) \<and>
   int_ids (snd (delete_post POSTS 2)) = [1, 3] \<and>
   (\<exists>pre p suf.
       POSTS = pre @ p # suf \<and> id_of p = Inr 2 \<and>
       (\<forall>q \<in> set pre. id_of q \<noteq> Inr 2) \<and>
       delete_post POSTS 2 =
         (Reply 200
            (JObj [(''message'',
                    JStr (''Post with id '' @ str_int 2 @ '' has been deleted successfully.''))]),
          pre @ suf) \<and>
       list_posts (pre @ suf) \<lparr>arg_search = None, arg_sort = None, arg_direction = None\<rparr> =
         (Reply 200 (JList (map JObj (pre @ suf))), pre @ suf) \<and>
       (distinct (int_ids POSTS) \<longrightarrow>
          2 \<notin> set (int_ids (pre @ suf)) \<and>
          (\<forall>q \<in> set (pre @ suf). id_of q \<noteq> Inr 2)))"
proof -
  have ok: "posts_ok POSTS" by (simp add: POSTS_invariant)
  have ids: "2 \<in> set (int_ids POSTS)" by (simp add: int_ids_def POSTS_def id_of_def)
  have e: "delete_post POSTS 2 =
     (Reply 200 (JObj [(''message'', JStr ''Post with id 2 has been deleted successfully.'')]),
      [POSTS ! 0, POSTS ! 2])"
    by (simp add: delete_post_def delete_post_try_def POSTS_def id_of_def deleted_def str_int_def)
  have g: "list_posts (snd (delete_post POSTS 2))
       \<lparr>arg_search = None, arg_sort = None, arg_direction = None\<rparr> =
     (Reply 200 (JList [JObj (POSTS ! 0), JObj (POSTS ! 2)]), [POSTS ! 0, POSTS ! 2])"
    by (simp add: e list_posts_def list_posts_try_def strip_def search_posts_def)
  have i: "int_ids (snd (delete_post POSTS 2)) = [1, 3]"
    unfolding e by (simp add: int_ids_def POSTS_def id_of_def)
  from delete_post_removes_first [OF ok ids] e g i show ?thesis by (intro conjI)
qed

subsection \<open>C9: GET changes nothing\<close>

text \<open>
  C9. A GET, for every query string and whatever the reply is (200, 400 or 500), writes
  to no object that existed before it: every list object, \<^verbatim>\<open>POSTS\<close> among them, holds the
  references it held, and every dict is as it was, so the collection and its order are
  the same. The handler does build lists (the copy, the filtered list, the sorted
  list), each a new object. Its reply is the reply of \<open>list_posts\<close> on the collection.
\<close>

theorem list_posts_leaves_collection:
  assumes "POSTS_ref < next_list h"
  shows "(\<forall>obj < next_list h. list_objs (snd (list_posts_h h a)) obj = list_objs h obj) \<and>
         dict_objs (snd (list_posts_h h a)) = dict_objs h \<and>
         collection (snd (list_posts_h h a)) = collection h \<and>
         next_list h < next_list (snd (list_posts_h h a)) \<and>
         fst (list_posts_h h a) = fst (list_posts (collection h) a)"
proof -
  from list_posts_h_refines [of h a]
  have k: "keeps h (snd (list_posts_h h a))"
    and n: "next_list h < next_list (snd (list_posts_h h a))"
    and r: "fst (list_posts_h h a) = fst (list_posts (collection h) a)"
    by simp_all
  from k assms have "collection (snd (list_posts_h h a)) = collection h"
    unfolding collection_def by (rule keeps_view)
  with k n r show ?thesis by (simp add: keeps_def)
qed

text \<open>On the seed data, with search and sort: three new list objects, \<^verbatim>\<open>POSTS\<close> untouched.\<close>

theorem list_posts_leaves_collection_witness:
  "collection (snd (list_posts_h seed_heap
     \<lparr>arg_search = Some ''python'', arg_sort = Some ''title'', arg_direction = Some ''desc''\<rparr>)) =
     POSTS \<and>
   list_objs (snd (list_posts_h seed_heap
     \<lparr>arg_search = Some ''python'', arg_sort = Some ''title'', arg_direction = Some ''desc''\<rparr>))
     POSTS_ref = [0, 1, 2] \<and>
   next_list (snd (list_posts_h seed_heap
     \<lparr>arg_search = Some ''python'', arg_sort = Some ''title'', arg_direction = Some ''desc''\<rparr>)) = 4 \<and>
   fst (list_posts_h seed_heap
     \<lparr>arg_search = Some ''python'', arg_sort = Some ''title'', arg_direction = Some ''desc''\<rparr>) =
     Reply 200 (JList [JObj (POSTS ! 2)])"
proof -
  have a: "POSTS_ref < next_list seed_heap"
    by (simp add: seed_heap_def POSTS_ref_def)
  have l: "list_objs seed_heap POSTS_ref = [0, 1, 2]"
    by (simp add: seed_heap_def)
  have n: "next_list (snd (list_posts_h seed_heap
     \<lparr>arg_search = Some ''python'', arg_sort = Some ''title'', arg_direction = Some ''desc''\<rparr>)) = 4"
    by (simp add: list_posts_h_def list_copy_def new_list_def search_posts_h_def
        sort_posts_h_def seed_heap_def POSTS_ref_def eval_defs)
  have r: "fst (list_posts (collection seed_heap)
     \<lparr>arg_search = Some ''python'', arg_sort = Some ''title'', arg_direction = Some ''desc''\<rparr>) =
     Reply 200 (JList [JObj (POSTS ! 2)])"
    unfolding collection_seed_heap by (simp add: eval_defs)
  from list_posts_leaves_collection [OF a,
      of "\<lparr>arg_search = Some ''python'', arg_sort = Some ''title'', arg_direction = Some ''desc''\<rparr>"]
  show ?thesis
    using a l n r by (simp add: collection_seed_heap)
qed

subsection \<open>C10: the query is stripped\<close>

text \<open>
  C10. A query made of a core \<open>core\<close> with white space \<open>l\<close> before and \<open>r\<close> after it, the
  core neither starting nor ending with white space, is answered as the query \<open>core\<close>:
  on a collection whose titles and contents are strs and without \<^verbatim>\<open>sort\<close>, with exactly
  the posts whose title or content contains \<open>core\<close>, and not those that contain the query
  with its white space. A query of white space only is answered as no query at all,
  with the whole collection when there is no \<^verbatim>\<open>sort\<close>. For every query \<open>q\<close>, the answer is
  that for \<open>strip q\<close>.
\<close>

theorem search_query_is_stripped:
  assumes "\<forall>c \<in> set l. is_space c" and "\<forall>c \<in> set r. is_space c"
    and "core = [] \<or> (\<not> is_space (hd core) \<and> \<not> is_space (last core))"
  shows "list_posts posts (a\<lparr>arg_search := Some (l @ core @ r)\<rparr>) =
           list_posts posts (a\<lparr>arg_search := Some core\<rparr>) \<and>
         (core = [] \<longrightarrow>
            list_posts posts (a\<lparr>arg_search := Some (l @ core @ r)\<rparr>) =
              list_posts posts (a\<lparr>arg_search := None\<rparr>) \<and>
            list_posts posts \<lparr>arg_search = Some (l @ core @ r), arg_sort = None,
                arg_direction = dir\<rparr> =
              (Reply 200 (JList (map JObj posts)), posts)) \<and>
         (texts_ok posts \<longrightarrow>
            list_posts posts \<lparr>arg_search = Some (l @ core @ r), arg_sort = None,
                arg_direction = dir\<rparr> =
              (Reply 200 (JList (map JObj (spec_search core posts))), posts)) \<and>
         list_posts posts (a\<lparr>arg_search := Some q\<rparr>) =
           list_posts posts (a\<lparr>arg_search := Some (strip q)\<rparr>)"
proof (intro conjI impI)
  have s: "strip (l @ core @ r) = core" using assms by (rule strip_surrounded)
  have c: "strip core = core"
    using strip_surrounded [of "[]" "[]" core] assms(3) by simp
  from s c show "list_posts posts (a\<lparr>arg_search := Some (l @ core @ r)\<rparr>) =
           list_posts posts (a\<lparr>arg_search := Some core\<rparr>)"
    by (simp add: list_posts_search_cong)
  show "list_posts posts (a\<lparr>arg_search := Some q\<rparr>) =
           list_posts posts (a\<lparr>arg_search := Some (strip q)\<rparr>)"
    by (rule list_posts_strip)
  {
    assume "texts_ok posts"
    then show "list_posts posts \<lparr>arg_search = Some (l @ core @ r), arg_sort = None,
                arg_direction = dir\<rparr> =
              (Reply 200 (JList (map JObj (spec_search core posts))), posts)"
      by (simp add: list_posts_search_only s)
  }
  {
    assume e: "core = []"
    have n: "strip [] = []" by (simp add: strip_def)
    from s e have s': "strip (l @ core @ r) = []" by simp
    then show "list_posts posts (a\<lparr>arg_search := Some (l @ core @ r)\<rparr>) =
              list_posts posts (a\<lparr>arg_search := None\<rparr>)"
      using n by (simp add: list_posts_def list_posts_try_def Let_def split: sum.splits)
    from s' show "list_posts posts \<lparr>arg_search = Some (l @ core @ r), arg_sort = None,
                arg_direction = dir\<rparr> =
              (Reply 200 (JList (map JObj posts)), posts)"
      by (simp add: list_posts_def list_posts_try_def search_posts_def Let_def split: sum.splits)
  }
qed

text \<open>
  On the seed data: \<^verbatim>\<open>" tips "\<close> finds the third post, as \<^verbatim>\<open>"tips"\<close> does, though no title
  or content contains \<^verbatim>\<open>"tips "\<close> or \<^verbatim>\<open>" tips "\<close>; a query of a blank, a tab and a newline
  returns all posts.
\<close>

theorem search_query_is_stripped_witness:
  "list_posts POSTS \<lparr>arg_search = Some '' tips '', arg_sort = None, arg_direction = None\<rparr> =
     (Reply 200 (JList [JObj (POSTS ! 2)]), POSTS) \<and>
   list_posts POSTS \<lparr>arg_search = Some '' tips '', arg_sort = None, arg_direction = None\<rparr> =
     list_posts POSTS \<lparr>arg_search = Some ''tips'', arg_sort = None, arg_direction = None\<rparr> \<and>
   spec_search ''tips'' POSTS = [POSTS ! 2] \<and>
   spec_search ''tips '' POSTS = [] \<and>
   spec_search '' tips '' POSTS = [] \<and>
   list_posts POSTS \<lparr>arg_search = Some [CHR '' '', CHR 0x09, CHR 0x0A], arg_sort = None,
       arg_direction = None\<rparr> =
     (Reply 200 (JList (map JObj POSTS)), POSTS)"
proof -
  have sp: "\<forall>c \<in> set '' ''. is_space c" by (simp add: is_space_def)
  have co: "''tips'' = [] \<or> (\<not> is_space (hd ''tips'') \<and> \<not> is_space (last ''tips''))"
    by (simp add: is_space_def)
  have t: "texts_ok POSTS" by (simp add: texts_ok_def POSTS_def)
  note th = search_query_is_stripped [OF sp sp co,
      where posts = POSTS and dir = None
        and a = "\<lparr>arg_search = None, arg_sort = None, arg_direction = None\<rparr>"]
  have s1: "spec_search ''tips'' POSTS = [POSTS ! 2]"
    and s2: "spec_search ''tips '' POSTS = []"
    and s3: "spec_search '' tips '' POSTS = []"
    by (simp_all add: spec_search_def spec_hit_def text_of_def POSTS_def lower_def
        lower_char_def char_of_def bit_Suc_0_iff sublist_code)
  have a: "list_posts POSTS \<lparr>arg_search = Some '' tips '', arg_sort = None, arg_direction = None\<rparr> =
     (Reply 200 (JList [JObj (POSTS ! 2)]), POSTS)"
    using th [THEN conjunct2, THEN conjunct2, THEN conjunct1, THEN mp, OF t]
    by (simp add: s1)
  have b: "list_posts POSTS \<lparr>arg_search = Some '' tips '', arg_sort = None, arg_direction = None\<rparr> =
     list_posts POSTS \<lparr>arg_search = Some ''tips'', arg_sort = None, arg_direction = None\<rparr>"
    using th [THEN conjunct1] by simp
  have ws: "\<forall>c \<in> set [CHR '' '', CHR 0x09, CHR 0x0A]. is_space c"
    and em: "\<forall>c \<in> set ([] :: string). is_space c"
    and ce: "([] :: string) = [] \<or> (\<not> is_space (hd []) \<and> \<not> is_space (last []))"
    by (simp_all add: is_space_def)
  have c: "list_posts POSTS \<lparr>arg_search = Some [CHR '' '', CHR 0x09, CHR 0x0A], arg_sort = None,
       arg_direction = None\<rparr> = (Reply 200 (JList (map JObj POSTS)), POSTS)"
    using search_query_is_stripped [OF ws em ce,
      where posts = POSTS and dir = None
        and a = "\<lparr>arg_search = None, arg_sort = None, arg_direction = None\<rparr>",
      THEN conjunct2, THEN conjunct1, THEN mp, OF refl, THEN conjunct2]
    by simp
  from a b s1 s2 s3 c show ?thesis by (intro conjI)
qed

end
